theory Spec2Isabelle
  imports Main
begin

section \<open>The AppleScript queue (src/applescript/queue.js)\<close>

text \<open>
  The queue is a JavaScript object with three fields: the array \<open>queue\<close> of tasks
  that wait, the flag \<open>processing\<close>, and the promise \<open>mutex\<close> on which every
  execution callback is chained with \<open>then\<close>. JavaScript runs one job at a time, so
  the model has one atomic step per job:
  \<^item> a call of \<open>enqueue\<close>, \<open>enqueueInline\<close> or \<open>clearQueue\<close> (synchronous code,
    including the synchronous body of \<open>processQueue\<close>);
  \<^item> the start of a callback chained on \<open>mutex\<close>, which runs up to the
    \<open>await\<close> of the executor (\<open>mutexRun\<close>);
  \<^item> the settling of the executor's promise, after which the callback runs to
    its end, \<open>processQueue\<close> included (\<open>executorSettled\<close>);
  \<^item> the passing of time.
  The executor, the clock and the callers are the environment; what they do is the
  event list that drives the model.
\<close>

text \<open>What a task carries for the executor: a script name with parameters, or an
  inline script (the \<open>inline: true\<close> tasks).\<close>

datatype payload = Script string "(string \<times> string) list" | Inline string

text \<open>How a promise was settled: \<open>resolve(result)\<close> or \<open>reject(error)\<close>, the
  error given by its message.\<close>

datatype outcome = Resolved string | Rejected string

text \<open>A task object of \<open>queue\<close>. The pair \<open>resolve\<close>/\<open>reject\<close> of the promise that
  \<open>enqueue\<close> returns is the number \<open>handle\<close> of that promise.\<close>

record task =
  payload :: payload
  handle :: nat
  attempts :: nat
  maxAttempts :: nat

text \<open>
  The object's fields are \<open>queue\<close>, \<open>processing\<close> and \<open>mutex\<close>. The chain of
  promises \<open>mutex\<close> is the list of the callbacks chained on it that have not started
  (in chain order); \<open>executing\<close> lists the tasks whose callback has called the
  executor and awaits its promise. The other fields are the environment as the
  queue sees it: the promises handed to callers and how each was settled, the clock,
  the executor's call log and the \<open>logger.error\<close> calls of failed executions, each
  with the time of the call.
\<close>

record queue_state =
  queue :: "task list"
  processing :: bool
  mutex :: "task list"
  executing :: "task list"
  promises :: "nat \<rightharpoonup> outcome"
  nextHandle :: nat
  now :: nat
  calls :: "(nat \<times> task) list"
  failures :: "(nat \<times> task) list"

definition init :: queue_state where
  "init = \<lparr>queue = [], processing = False, mutex = [], executing = [],
     promises = Map.empty, nextHandle = 0, now = 0, calls = [], failures = []\<rparr>"

text \<open>\<open>task.resolve(v)\<close> and \<open>task.reject(e)\<close>: a promise is settled once, a later
  call changes nothing.\<close>

definition settle :: "nat \<Rightarrow> outcome \<Rightarrow> queue_state \<Rightarrow> queue_state" where
  "settle h v s = (if promises s h = None then s\<lparr>promises := (promises s)(h \<mapsto> v)\<rparr> else s)"

text \<open>The synchronous body of \<open>processQueue\<close>: with an empty queue the worker goes
  idle; otherwise the first task is shifted off and its callback chained on
  \<open>mutex\<close>.\<close>

definition processQueue :: "queue_state \<Rightarrow> queue_state" where
  "processQueue s =
     (case queue s of
        [] \<Rightarrow> s\<lparr>processing := False\<rparr>
      | t # q \<Rightarrow> s\<lparr>processing := True, queue := q, mutex := mutex s @ [t]\<rparr>)"

text \<open>\<open>enqueue\<close> and \<open>enqueueInline\<close> push a task with \<open>attempts: 0\<close> and
  \<open>maxAttempts: 3\<close>, and call \<open>processQueue\<close> unless \<open>processing\<close> is set.\<close>

definition push :: "payload \<Rightarrow> queue_state \<Rightarrow> queue_state" where
  "push p s =
     (let s1 = s\<lparr>queue := queue s @ [\<lparr>payload = p, handle = nextHandle s, attempts = 0, maxAttempts = 3\<rparr>],
                  nextHandle := Suc (nextHandle s)\<rparr>
      in if \<not> processing s1 then processQueue s1 else s1)"

definition enqueue :: "string \<Rightarrow> (string \<times> string) list \<Rightarrow> queue_state \<Rightarrow> queue_state" where
  "enqueue scriptName params s = push (Script scriptName params) s"

definition enqueueInline :: "string \<Rightarrow> queue_state \<Rightarrow> queue_state" where
  "enqueueInline script s = push (Inline script) s"

text \<open>
  The callback chained on \<open>mutex\<close> starts when the promise before it in the chain
  has resolved, that is when every callback chained earlier has run to its end: the
  first callback of the list starts, and only while no earlier one is still awaiting
  its executor. It calls the executor and awaits the result.
\<close>

definition mutexRun :: "queue_state \<Rightarrow> queue_state" where
  "mutexRun s =
     (case mutex s of
        [] \<Rightarrow> s
      | t # rest \<Rightarrow>
          if executing s = [] then
            s\<lparr>mutex := rest, executing := [t], calls := calls s @ [(now s, t)]\<rparr>
          else s)"

text \<open>
  The rest of the callback, once the executor's promise has settled: resolve the
  task, or in the \<open>catch\<close> block log the failure and either put the task back at the
  front of the queue with \<open>attempts\<close> incremented or reject it; then
  \<open>processQueue\<close>. The executor's failure is caught inside the callback, and the
  logger and the promise functions do not throw, so the callback never rejects and
  the \<open>catch\<close> handler chained behind it on \<open>mutex\<close> never runs.
\<close>

definition executorSettled :: "outcome \<Rightarrow> queue_state \<Rightarrow> queue_state" where
  "executorSettled r s =
     (case executing s of
        [] \<Rightarrow> s
      | t # others \<Rightarrow>
          let s1 = s\<lparr>executing := others\<rparr> in
          (case r of
             Resolved v \<Rightarrow> processQueue (settle (handle t) (Resolved v) s1)
           | Rejected e \<Rightarrow>
               let s2 = s1\<lparr>failures := failures s1 @ [(now s1, t)]\<rparr> in
               if attempts t < maxAttempts t then
                 processQueue (s2\<lparr>queue := t\<lparr>attempts := Suc (attempts t)\<rparr> # queue s2\<rparr>)
               else processQueue (settle (handle t) (Rejected e) s2)))"

text \<open>\<open>getQueueDepth\<close> returns \<open>queue.length\<close>; the state is returned with it to
  show what the call does to the object.\<close>

definition getQueueDepth :: "queue_state \<Rightarrow> nat \<times> queue_state" where
  "getQueueDepth s = (length (queue s), s)"

text \<open>\<open>clearQueue(reason)\<close>: every task of the queue is rejected with the error
  \<open>Task cancelled: reason\<close>, then the queue is emptied.\<close>

definition clearQueue :: "string \<Rightarrow> queue_state \<Rightarrow> queue_state" where
  "clearQueue reason s =
     (if 0 < length (queue s) then
        (fold (\<lambda>t. settle (handle t) (Rejected (''Task cancelled: '' @ reason))) (queue s) s)
          \<lparr>queue := []\<rparr>
      else s)"

text \<open>The jobs of the event loop that touch the queue.\<close>

datatype event =
    Enqueue string "(string \<times> string) list"
  | EnqueueInline string
  | ClearQueue string
  | MutexRun
  | ExecutorSettled outcome
  | Elapse nat

fun step :: "event \<Rightarrow> queue_state \<Rightarrow> queue_state" where
  "step (Enqueue n ps) s = enqueue n ps s"
| "step (EnqueueInline sc) s = enqueueInline sc s"
| "step (ClearQueue r) s = clearQueue r s"
| "step MutexRun s = mutexRun s"
| "step (ExecutorSettled r) s = executorSettled r s"
| "step (Elapse d) s = s\<lparr>now := now s + d\<rparr>"

definition run :: "event list \<Rightarrow> queue_state \<Rightarrow> queue_state" where
  "run es s = fold step es s"

section \<open>The Realtime manager (src/supabase/realtime.js)\<close>

text \<open>A row of the table \<open>messages_out\<close>: the columns the manager's query reads.\<close>

record message =
  msg_id :: string
  created_at :: nat
  status :: string

text \<open>The consumer callback \<open>messageHandler\<close>, seen from the manager: for each
  message it returns normally (\<open>None\<close>) or throws, or rejects its promise, with an
  error (\<open>Some e\<close>).\<close>

type_synonym handler = "message \<Rightarrow> string option"

text \<open>
  The fields of a \<open>RealtimeManager\<close>, then the environment it acts on: the intervals
  that \<open>setInterval\<close> created and \<open>clearInterval\<close> has not cleared (a timer handle
  is a number; the handles Node returns are objects, so every handle is truthy), the
  channels that are subscribed, the calls the consumer callback received and the
  \<open>logger.error\<close> calls (message and error).
\<close>

record manager_state =
  subscription :: "nat option"
  pollingInterval :: "nat option"
  pollingFrequency :: nat
  isPolling :: bool
  isRealtimeConnected :: bool
  lastPollTime :: "nat option"
  messageHandler :: "handler option"
  timers :: "(nat \<times> nat) list"
  nextTimer :: nat
  openChannels :: "nat list"
  nextChannel :: nat
  delivered :: "message list"
  errorLog :: "(string \<times> string) list"

definition minit :: manager_state where
  "minit = \<lparr>subscription = None, pollingInterval = None, pollingFrequency = 5000,
     isPolling = False, isRealtimeConnected = False, lastPollTime = None,
     messageHandler = None, timers = [], nextTimer = 1, openChannels = [], nextChannel = 1,
     delivered = [], errorLog = []\<rparr>"

definition setIntervalFunc :: "nat \<Rightarrow> manager_state \<Rightarrow> nat \<times> manager_state" where
  "setIntervalFunc period s =
     (nextTimer s, s\<lparr>timers := timers s @ [(nextTimer s, period)], nextTimer := Suc (nextTimer s)\<rparr>)"

definition clearIntervalFunc :: "nat \<Rightarrow> manager_state \<Rightarrow> manager_state" where
  "clearIntervalFunc i s = s\<lparr>timers := filter (\<lambda>(j, p). j \<noteq> i) (timers s)\<rparr>"

text \<open>\<open>startPolling\<close>: nothing when \<open>isPolling\<close> is set; otherwise the flag is set,
  an interval left over is cleared and a new one is created.\<close>

definition startPolling :: "manager_state \<Rightarrow> manager_state" where
  "startPolling s =
     (if isPolling s then s
      else
        let s1 = s\<lparr>isPolling := True\<rparr>;
            s2 = (case pollingInterval s1 of
                    Some i \<Rightarrow> (clearIntervalFunc i s1)\<lparr>pollingInterval := None\<rparr>
                  | None \<Rightarrow> s1);
            (i, s3) = setIntervalFunc (pollingFrequency s2) s2
        in s3\<lparr>pollingInterval := Some i\<rparr>)"

definition stopPolling :: "manager_state \<Rightarrow> manager_state" where
  "stopPolling s =
     (let s1 = (case pollingInterval s of
                  Some i \<Rightarrow> (clearIntervalFunc i s)\<lparr>pollingInterval := None\<rparr>
                | None \<Rightarrow> s)
      in s1\<lparr>isPolling := False\<rparr>)"

text \<open>
  What \<open>subscribe\<close> does is the environment's: it returns the channel, or the chain
  of calls throws. The two callbacks it registers are \<open>onInsert\<close> (a row inserted
  with status pending) and \<open>onStatus\<close> (a status signal of the subscription).
\<close>

datatype setup_result = SetupOk | SetupThrows string

definition setupRealtimeSubscription :: "setup_result \<Rightarrow> manager_state \<Rightarrow> string + manager_state" where
  "setupRealtimeSubscription r s =
     (case r of
        SetupThrows e \<Rightarrow> Inl e
      | SetupOk \<Rightarrow>
          Inr (s\<lparr>subscription := Some (nextChannel s),
                 openChannels := openChannels s @ [nextChannel s],
                 nextChannel := Suc (nextChannel s)\<rparr>))"

definition onInsert :: "message \<Rightarrow> manager_state \<Rightarrow> manager_state" where
  "onInsert m s =
     (case messageHandler s of
        Some h \<Rightarrow> s\<lparr>delivered := delivered s @ [m]\<rparr>
      | None \<Rightarrow> s)"

definition onStatus :: "string \<Rightarrow> manager_state \<Rightarrow> manager_state" where
  "onStatus st s =
     (if st = ''SUBSCRIBED'' then
        let s1 = s\<lparr>isRealtimeConnected := True\<rparr>
        in if isPolling s1 then stopPolling s1 else s1
      else if st = ''CHANNEL_ERROR'' then
        let s1 = s\<lparr>isRealtimeConnected := False,
                    errorLog := errorLog s @ [(''Realtime subscription error'', [])]\<rparr>
        in if \<not> isPolling s1 then startPolling s1 else s1
      else s)"

text \<open>
  The query of \<open>pollPendingMessages\<close>: the rows of \<open>messages_out\<close> whose status is
  \<open>pending\<close>, in ascending order of \<open>created_at\<close>. The database answers with an error
  or with rows; \<open>Rows\<close> carries the table as it is when the query runs. Rows
  with the same \<open>created_at\<close> come in the order of the table.
\<close>

datatype query_result = QueryError string | Rows "message list"

definition selectPending :: "message list \<Rightarrow> message list" where
  "selectPending table = sort_key created_at (filter (\<lambda>m. status m = ''pending'') table)"

text \<open>The loop \<open>for (const message of data) await this.messageHandler(message)\<close>:
  the first call that throws ends the loop. The result is the error thrown, if any,
  and the consumer's call log.\<close>

fun deliverAll :: "handler \<Rightarrow> message list \<Rightarrow> message list \<Rightarrow> string option \<times> message list" where
  "deliverAll h [] log = (None, log)"
| "deliverAll h (m # ms) log =
     (case h m of
        None \<Rightarrow> deliverAll h ms (log @ [m])
      | Some e \<Rightarrow> (Some e, log @ [m]))"

text \<open>
  \<open>pollPendingMessages\<close> in its two jobs: \<open>pollBegin\<close> runs up to the \<open>await\<close> of
  the query (it stores \<open>new Date()\<close> in \<open>lastPollTime\<close>), \<open>pollResume\<close> runs from the
  query's answer to the end. One \<open>try\<close> block holds the whole body: its \<open>catch\<close>
  logs the error and the call returns normally.
\<close>

definition pollBegin :: "nat \<Rightarrow> manager_state \<Rightarrow> manager_state" where
  "pollBegin t s = s\<lparr>lastPollTime := Some t\<rparr>"

definition pollResume :: "query_result \<Rightarrow> manager_state \<Rightarrow> manager_state" where
  "pollResume res s =
     (case res of
        QueryError e \<Rightarrow> s\<lparr>errorLog := errorLog s @ [(''Error polling for pending messages'', e)]\<rparr>
      | Rows table \<Rightarrow>
          (case messageHandler s of
             None \<Rightarrow> s
           | Some h \<Rightarrow>
               (case deliverAll h (selectPending table) (delivered s) of
                  (None, log) \<Rightarrow> s\<lparr>delivered := log\<rparr>
                | (Some e, log) \<Rightarrow>
                    s\<lparr>delivered := log,
                      errorLog := errorLog s @ [(''Error polling for pending messages'', e)]\<rparr>)))"

definition pollPendingMessages :: "nat \<Rightarrow> query_result \<Rightarrow> manager_state \<Rightarrow> manager_state" where
  "pollPendingMessages t res s = pollResume res (pollBegin t s)"

text \<open>
  \<open>initialize(messageHandler)\<close>: it throws when the argument is not a function
  (\<open>None\<close>); otherwise it stores the handler, sets the subscription up and polls
  once, and when the set-up throws it starts polling instead.
\<close>

definition initialize ::
  "handler option \<Rightarrow> setup_result \<Rightarrow> nat \<Rightarrow> query_result \<Rightarrow> manager_state \<Rightarrow> string + manager_state" where
  "initialize mh setup t res s =
     (case mh of
        None \<Rightarrow> Inl ''Message handler must be a function''
      | Some h \<Rightarrow>
          let s1 = s\<lparr>messageHandler := Some h\<rparr> in
          (case setupRealtimeSubscription setup s1 of
             Inr s2 \<Rightarrow> Inr (pollPendingMessages t res s2)
           | Inl e \<Rightarrow>
               Inr (startPolling
                     (s1\<lparr>errorLog := errorLog s1 @ [(''Failed to initialize Realtime connection'', e)]\<rparr>))))"

definition shutdown :: "manager_state \<Rightarrow> manager_state" where
  "shutdown s =
     (let s1 = (case subscription s of
                  Some c \<Rightarrow> s\<lparr>openChannels := removeAll c (openChannels s), subscription := None\<rparr>
                | None \<Rightarrow> s);
          s2 = (case pollingInterval s1 of
                  Some i \<Rightarrow> (clearIntervalFunc i s1)\<lparr>pollingInterval := None\<rparr>
                | None \<Rightarrow> s1)
      in s2\<lparr>isPolling := False, isRealtimeConnected := False\<rparr>)"

text \<open>The callback of the interval: it fires only while an interval exists.\<close>

definition tick :: "nat \<Rightarrow> query_result \<Rightarrow> manager_state \<Rightarrow> manager_state" where
  "tick t res s = (if timers s = [] then s else pollPendingMessages t res s)"

text \<open>The poll timer runs when the manager holds the handle of an interval that
  exists.\<close>

definition timerRunning :: "manager_state \<Rightarrow> bool" where
  "timerRunning s =
     (case pollingInterval s of
        None \<Rightarrow> False
      | Some i \<Rightarrow> i \<in> set (map fst (timers s)))"

datatype mevent =
    Initialize "handler option" setup_result nat query_result
  | Status string
  | Insert message
  | Tick nat query_result
  | Shutdown

fun mstep :: "mevent \<Rightarrow> manager_state \<Rightarrow> manager_state" where
  "mstep (Initialize mh setup t res) s =
     (case initialize mh setup t res s of Inl e \<Rightarrow> s | Inr s' \<Rightarrow> s')"
| "mstep (Status st) s = onStatus st s"
| "mstep (Insert m) s = onInsert m s"
| "mstep (Tick t res) s = tick t res s"
| "mstep Shutdown s = shutdown s"

definition mrun :: "mevent list \<Rightarrow> manager_state \<Rightarrow> manager_state" where
  "mrun es s = fold mstep es s"

section \<open>Invariants of the queue\<close>

text \<open>
  The worker's invariant: a callback is chained on \<open>mutex\<close> or awaits the executor
  exactly while \<open>processing\<close> is set, there is never more than one, and an idle
  worker has an empty queue.
\<close>

definition worker_inv :: "queue_state \<Rightarrow> bool" where
  "worker_inv s \<longleftrightarrow>
     length (mutex s) + length (executing s) = (if processing s then 1 else 0) \<and>
     (\<not> processing s \<longrightarrow> queue s = [])"

text \<open>
  \<open>holders s h\<close> counts the tasks of the object (waiting, chained or executing)
  whose promise is \<open>h\<close>. The invariant on promises: no promise belongs to two
  tasks, the promise of a task that is still in the object is unsettled, and the
  promises not handed out yet are unsettled.
\<close>

definition holders :: "queue_state \<Rightarrow> nat \<Rightarrow> nat" where
  "holders s h = length (filter (\<lambda>t. handle t = h) (queue s @ mutex s @ executing s))"

definition handles_inv :: "queue_state \<Rightarrow> bool" where
  "handles_inv s \<longleftrightarrow>
     (\<forall>h. holders s h \<le> 1 \<and>
          (0 < holders s h \<longrightarrow> h < nextHandle s \<and> promises s h = None) \<and>
          (nextHandle s \<le> h \<longrightarrow> promises s h = None))"

text \<open>
  The executor's calls and the failed executions, counted per promise. A task that
  waits has not been called; a chained task has been called and has failed
  \<open>attempts\<close> times, an executing one has been called once more; every task has
  \<open>maxAttempts = 3\<close> and at most 3 attempts behind it. A promise whose task has left
  the object is settled: resolved after calls of which all but the last failed,
  rejected after no call at all (cancelled while waiting) or after 4 calls that all
  failed.
\<close>

definition callsFor :: "nat \<Rightarrow> queue_state \<Rightarrow> nat" where
  "callsFor h s = length (filter (\<lambda>c. handle (snd c) = h) (calls s))"

definition failuresFor :: "nat \<Rightarrow> queue_state \<Rightarrow> nat" where
  "failuresFor h s = length (filter (\<lambda>c. handle (snd c) = h) (failures s))"

definition attempted :: "queue_state \<Rightarrow> nat \<Rightarrow> task \<Rightarrow> bool" where
  "attempted s x t \<longleftrightarrow>
     maxAttempts t = 3 \<and> attempts t \<le> 3 \<and>
     callsFor (handle t) s = attempts t + x \<and> failuresFor (handle t) s = attempts t"

definition finished :: "queue_state \<Rightarrow> nat \<Rightarrow> bool" where
  "finished s h =
     (case promises s h of
        None \<Rightarrow> False
      | Some (Resolved v) \<Rightarrow> callsFor h s = failuresFor h s + 1 \<and> callsFor h s \<le> 4
      | Some (Rejected e) \<Rightarrow>
          (callsFor h s = 0 \<and> failuresFor h s = 0) \<or> (callsFor h s = 4 \<and> failuresFor h s = 4))"

definition attempts_inv :: "queue_state \<Rightarrow> bool" where
  "attempts_inv s \<longleftrightarrow>
     (\<forall>t \<in> set (queue s). attempts t = 0 \<and> attempted s 0 t) \<and>
     (\<forall>t \<in> set (mutex s). attempted s 0 t) \<and>
     (\<forall>t \<in> set (executing s). attempted s 1 t) \<and>
     (\<forall>h. nextHandle s \<le> h \<longrightarrow> callsFor h s = 0 \<and> failuresFor h s = 0) \<and>
     (\<forall>h. h < nextHandle s \<and> holders s h = 0 \<longrightarrow> finished s h)"

definition reach_inv :: "queue_state \<Rightarrow> bool" where
  "reach_inv s \<longleftrightarrow> worker_inv s \<and> handles_inv s \<and> attempts_inv s"

section \<open>Scenarios and the specification's backoff\<close>

text \<open>The environment of a task whose every attempt fails: \<open>k\<close> rounds in which
  the chained callback starts and the executor rejects, with error \<open>err i\<close> in
  round \<open>i\<close>.\<close>

fun failing :: "nat \<Rightarrow> (nat \<Rightarrow> string) \<Rightarrow> event list" where
  "failing 0 err = []"
| "failing (Suc k) err = failing k err @ [MutexRun, ExecutorSettled (Rejected (err k))]"

text \<open>The delay of the specification, in its words: base delay times
  \<open>2 ^ (attempts - 1)\<close>. The queue's source has no such delay; the definition is
  here to be compared with what the queue does.\<close>

definition spec_backoff_delay :: "nat \<Rightarrow> nat \<Rightarrow> nat" where
  "spec_backoff_delay base n = base * 2 ^ (n - 1)"

section \<open>Invariant of the manager and consumers for the scenarios\<close>


text \<open>Two consumer callbacks: one that accepts every message, one that throws on
  the message with a given id.\<close>

definition acceptAll :: handler where
  "acceptAll m = None"

definition failOn :: "string \<Rightarrow> handler" where
  "failOn i m = (if msg_id m = i then Some ''handler failed'' else None)"

section \<open>Properties of the queue\<close>

lemmas queue_defs = enqueue_def enqueueInline_def push_def processQueue_def
  clearQueue_def mutexRun_def executorSettled_def Let_def

lemma settle_fields [simp]:
  "queue (settle h v s) = queue s" "processing (settle h v s) = processing s"
  "mutex (settle h v s) = mutex s" "executing (settle h v s) = executing s"
  "nextHandle (settle h v s) = nextHandle s" "now (settle h v s) = now s"
  "calls (settle h v s) = calls s" "failures (settle h v s) = failures s"
  by (simp_all add: settle_def)

lemma settle_promises:
  "promises (settle h v s) = (if promises s h = None then (promises s)(h \<mapsto> v) else promises s)"
  by (simp add: settle_def)

lemma fold_settle_fields [simp]:
  "queue (fold (\<lambda>t. settle (handle t) v) ts s) = queue s"
  "processing (fold (\<lambda>t. settle (handle t) v) ts s) = processing s"
  "mutex (fold (\<lambda>t. settle (handle t) v) ts s) = mutex s"
  "executing (fold (\<lambda>t. settle (handle t) v) ts s) = executing s"
  "nextHandle (fold (\<lambda>t. settle (handle t) v) ts s) = nextHandle s"
  "now (fold (\<lambda>t. settle (handle t) v) ts s) = now s"
  "calls (fold (\<lambda>t. settle (handle t) v) ts s) = calls s"
  "failures (fold (\<lambda>t. settle (handle t) v) ts s) = failures s"
  by (induction ts arbitrary: s; simp)+

lemma fold_settle_promises:
  "promises (fold (\<lambda>t. settle (handle t) v) ts s) h =
     (if h \<in> handle ` set ts \<and> promises s h = None then Some v else promises s h)"
  by (induction ts arbitrary: s) (auto simp: settle_promises)

lemma worker_inv_init: "worker_inv init"
  by (simp add: worker_inv_def init_def)

lemma worker_inv_step: "worker_inv s \<Longrightarrow> worker_inv (step e s)"
  by (cases e)
     (auto simp: worker_inv_def queue_defs split: list.splits if_splits outcome.splits)

lemma worker_inv_run: "worker_inv s \<Longrightarrow> worker_inv (run es s)"
  unfolding run_def by (induction es arbitrary: s) (simp_all add: worker_inv_step)

lemma run_append: "run (es @ fs) s = run fs (run es s)"
  by (simp add: run_def)

lemma run_Nil [simp]: "run [] s = s"
  by (simp add: run_def)

lemma run_Cons [simp]: "run (e # es) s = run es (step e s)"
  by (simp add: run_def)

lemma calls_step_grows:
  "calls (step e s) \<noteq> calls s \<Longrightarrow> executing s = [] \<and> length (executing (step e s)) = 1"
  by (cases e)
     (auto simp: queue_defs split: list.splits if_splits outcome.splits)

lemma idle_push:
  "\<not> processing s \<Longrightarrow> worker_inv s \<Longrightarrow>
     mutex s = [] \<and> executing s = [] \<and> length (mutex (push p s)) = 1 \<and> processing (push p s)"
  by (auto simp: worker_inv_def push_def processQueue_def Let_def split: list.splits)

lemma busy_push: "processing s \<Longrightarrow> mutex (push p s) = mutex s \<and> executing (push p s) = executing s"
  by (simp add: push_def Let_def)

text \<open>
  Claim C1. Whatever the callers, the executor and the clock do (any list of events
  from the initial state): at most one task is inside the executor, and at most one
  callback is chained on \<open>mutex\<close> or running, so a chained callback never finds
  another one awaiting its executor; a step that calls the executor starts from a
  state with no task inside it; an \<open>enqueue\<close> or \<open>enqueueInline\<close> that finds the
  worker idle chains exactly one callback, and one that finds it busy chains none.
\<close>

theorem at_most_one_in_executor:
  "(let s = run es init in
      length (executing s) \<le> 1 \<and>
      length (mutex s) + length (executing s) \<le> 1 \<and>
      (\<forall>e. calls (step e s) \<noteq> calls s \<longrightarrow>
           executing s = [] \<and> length (executing (step e s)) = 1) \<and>
      (\<not> processing s \<longrightarrow>
           mutex s = [] \<and> executing s = [] \<and>
           length (mutex (enqueue n ps s)) = 1 \<and> processing (enqueue n ps s) \<and>
           length (mutex (enqueueInline sc s)) = 1 \<and> processing (enqueueInline sc s)) \<and>
      (processing s \<longrightarrow>
           mutex (enqueue n ps s) = mutex s \<and> mutex (enqueueInline sc s) = mutex s))"
proof -
  have inv: "worker_inv (run es init)"
    by (rule worker_inv_run [OF worker_inv_init])
  have a: "length (mutex (run es init)) + length (executing (run es init)) \<le> 1"
    using inv by (simp add: worker_inv_def split: if_splits)
  show ?thesis
    using a calls_step_grows [of _ "run es init"] idle_push [OF _ inv] busy_push [of "run es init"]
    by (simp add: Let_def enqueue_def enqueueInline_def)
qed

theorem at_most_one_in_executor_witness:
  "(let s = run [Enqueue ''send_text'' [], EnqueueInline ''beep''] init in
      calls (step MutexRun s) \<noteq> calls s \<and> executing s = [] \<and>
      length (executing (step MutexRun s)) = 1 \<and>
      processing s \<and> mutex (enqueue ''send_media'' [] s) = mutex s) \<and>
   (let s = run [] init in
      \<not> processing s \<and> length (mutex (enqueue ''send_text'' [] s)) = 1)"
  using at_most_one_in_executor [of "[Enqueue ''send_text'' [], EnqueueInline ''beep'']" "''send_media''" "[]" "''x''"]
    at_most_one_in_executor [of "[]" "''send_text''" "[]" "''x''"]
  by (simp add: init_def queue_defs)

text \<open>
  Claim C10. \<open>getQueueDepth\<close> returns the length of \<open>queue\<close> and leaves the state
  as it is. The task inside the executor is not counted: when a task is enqueued on
  an idle queue and its callback has started, the task is executing and the depth
  is 0.
\<close>

theorem getQueueDepth_counts_pending_only:
  "snd (getQueueDepth s) = s \<and> fst (getQueueDepth s) = length (queue s) \<and>
   (let s0 = run es init; s1 = mutexRun (enqueue n ps s0) in
      \<not> processing s0 \<longrightarrow>
        executing s1 = [\<lparr>payload = Script n ps, handle = nextHandle s0, attempts = 0, maxAttempts = 3\<rparr>] \<and>
        fst (getQueueDepth s1) = 0 \<and> snd (getQueueDepth s1) = s1)"
proof -
  have inv: "worker_inv (run es init)"
    by (rule worker_inv_run [OF worker_inv_init])
  show ?thesis
    using inv
    by (auto simp: getQueueDepth_def worker_inv_def queue_defs split: list.splits if_splits)
qed

theorem getQueueDepth_counts_pending_only_witness:
  "(let s0 = run [Enqueue ''send_text'' [], MutexRun, ExecutorSettled (Resolved ''OK'')] init;
        s1 = mutexRun (enqueue ''send_media'' [] s0) in
      \<not> processing s0 \<and>
      executing s1 = [\<lparr>payload = Script ''send_media'' [], handle = 1, attempts = 0, maxAttempts = 3\<rparr>] \<and>
      fst (getQueueDepth s1) = 0 \<and> snd (getQueueDepth s1) = s1)"
  using getQueueDepth_counts_pending_only [of _ "[Enqueue ''send_text'' [], MutexRun, ExecutorSettled (Resolved ''OK'')]" "''send_media''" "[]"]
  by (simp add: init_def queue_defs settle_def)


lemma holds_iff: "(h \<in> handle ` set ts) = (0 < length (filter (\<lambda>t. handle t = h) ts))"
  by (induction ts) auto

lemma processQueue_fields [simp]:
  "promises (processQueue s) = promises s" "nextHandle (processQueue s) = nextHandle s"
  "executing (processQueue s) = executing s" "now (processQueue s) = now s"
  "calls (processQueue s) = calls s" "failures (processQueue s) = failures s"
  by (simp_all add: processQueue_def split: list.splits)

lemma holders_processQueue [simp]: "holders (processQueue s) h = holders s h"
  by (simp add: holders_def processQueue_def split: list.splits)

lemma holders_settle [simp]: "holders (settle h' v s) h = holders s h"
  by (simp add: holders_def)

lemma handles_inv_init: "handles_inv init"
  by (simp add: handles_inv_def holders_def init_def)

lemma handles_inv_processQueue: "handles_inv s \<Longrightarrow> handles_inv (processQueue s)"
  by (simp add: handles_inv_def)

lemma handles_inv_push: "handles_inv s \<Longrightarrow> handles_inv (push p s)"
proof -
  assume inv: "handles_inv s"
  define s1 where "s1 = s\<lparr>queue := queue s @ [\<lparr>payload = p, handle = nextHandle s, attempts = 0, maxAttempts = 3\<rparr>],
                  nextHandle := Suc (nextHandle s)\<rparr>"
  have h1: "holders s1 h = holders s h + (if h = nextHandle s then 1 else 0)" for h
    by (simp add: s1_def holders_def)
  have z: "holders s (nextHandle s) = 0"
    using inv unfolding handles_inv_def by (metis less_irrefl not_gr_zero)
  have "handles_inv s1"
    unfolding handles_inv_def
  proof (intro allI)
    fix h
    show "holders s1 h \<le> 1 \<and> (0 < holders s1 h \<longrightarrow> h < nextHandle s1 \<and> promises s1 h = None) \<and>
          (nextHandle s1 \<le> h \<longrightarrow> promises s1 h = None)"
      using inv z unfolding handles_inv_def h1
      by (cases "h = nextHandle s") (auto simp: s1_def less_Suc_eq)
  qed
  then show ?thesis
    by (simp add: push_def Let_def s1_def [symmetric] handles_inv_processQueue)
qed

lemma handles_inv_mutexRun: "handles_inv s \<Longrightarrow> handles_inv (mutexRun s)"
proof -
  have "holders (mutexRun s) h = holders s h" for h
    by (simp add: holders_def mutexRun_def split: list.splits)
  moreover have "promises (mutexRun s) = promises s" "nextHandle (mutexRun s) = nextHandle s"
    by (simp_all add: mutexRun_def split: list.splits)
  ultimately show "handles_inv s \<Longrightarrow> handles_inv (mutexRun s)"
    by (simp add: handles_inv_def)
qed

lemma handles_inv_clearQueue: "handles_inv s \<Longrightarrow> handles_inv (clearQueue r s)"
proof -
  assume inv: "handles_inv s"
  have a: "holders (clearQueue r s) h \<le> holders s h" for h
    by (simp add: holders_def clearQueue_def)
  have hc: "holders (clearQueue r s) h =
      length (filter (\<lambda>t. handle t = h) (mutex s)) + length (filter (\<lambda>t. handle t = h) (executing s))" for h
    by (simp add: holders_def clearQueue_def)
  have hs: "holders s h = length (filter (\<lambda>t. handle t = h) (queue s)) +
      (length (filter (\<lambda>t. handle t = h) (mutex s)) + length (filter (\<lambda>t. handle t = h) (executing s)))" for h
    by (simp add: holders_def)
  have b: "h \<notin> handle ` set (queue s)" if "0 < holders (clearQueue r s) h" for h
  proof
    assume "h \<in> handle ` set (queue s)"
    then have "0 < length (filter (\<lambda>t. handle t = h) (queue s))"
      unfolding holds_iff .
    with that have "1 < holders s h"
      unfolding hc hs by linarith
    with inv [unfolded handles_inv_def, rule_format, of h] show False by simp
  qed
  have c: "promises (clearQueue r s) h =
      (if h \<in> handle ` set (queue s) \<and> promises s h = None
       then Some (Rejected (''Task cancelled: '' @ r)) else promises s h)" for h
    by (simp add: clearQueue_def fold_settle_promises)
  have d: "nextHandle (clearQueue r s) = nextHandle s"
    by (simp add: clearQueue_def)
  have e: "h < nextHandle s" if "h \<in> handle ` set (queue s)" for h
  proof -
    from that have "0 < length (filter (\<lambda>t. handle t = h) (queue s))"
      unfolding holds_iff .
    then have "0 < holders s h"
      unfolding hs by linarith
    with inv [unfolded handles_inv_def, rule_format, of h] show ?thesis by simp
  qed
  show "handles_inv (clearQueue r s)"
    unfolding handles_inv_def
  proof (intro allI)
    fix h
    show "holders (clearQueue r s) h \<le> 1 \<and>
          (0 < holders (clearQueue r s) h \<longrightarrow>
             h < nextHandle (clearQueue r s) \<and> promises (clearQueue r s) h = None) \<and>
          (nextHandle (clearQueue r s) \<le> h \<longrightarrow> promises (clearQueue r s) h = None)"
      using inv [unfolded handles_inv_def, rule_format, of h] a [of h] b [of h] e [of h]
      unfolding c d by auto
  qed
qed

lemma handles_inv_executorSettled: "handles_inv s \<Longrightarrow> handles_inv (executorSettled r s)"
proof (cases "executing s")
  case Nil
  then show "handles_inv s \<Longrightarrow> handles_inv (executorSettled r s)"
    by (simp add: executorSettled_def)
next
  case (Cons t others)
  assume inv: "handles_inv s"
  have ht: "holders s (handle t) = 1"
    using inv [unfolded handles_inv_def, rule_format, of "handle t"] Cons
    by (simp add: holders_def)
  have pt: "promises s (handle t) = None"
    using inv [unfolded handles_inv_def, rule_format, of "handle t"] ht by simp
  have drop: "handles_inv (settle (handle t) v (s\<lparr>executing := others, failures := f\<rparr>))" for v f
    unfolding handles_inv_def
  proof (intro allI)
    fix h
    let ?s' = "settle (handle t) v (s\<lparr>executing := others, failures := f\<rparr>)"
    have h': "holders ?s' h = holders s h - (if h = handle t then 1 else 0)"
      using Cons by (auto simp: holders_def)
    show "holders ?s' h \<le> 1 \<and> (0 < holders ?s' h \<longrightarrow> h < nextHandle ?s' \<and> promises ?s' h = None) \<and>
          (nextHandle ?s' \<le> h \<longrightarrow> promises ?s' h = None)"
      using inv [unfolded handles_inv_def, rule_format, of h] ht pt
      unfolding h'
      by (cases "h = handle t") (auto simp: settle_promises)
  qed
  have retry: "handles_inv (s\<lparr>executing := others, failures := f,
                  queue := t\<lparr>attempts := Suc (attempts t)\<rparr> # queue s\<rparr>)" for f
  proof -
    have "holders (s\<lparr>executing := others, failures := f,
                  queue := t\<lparr>attempts := Suc (attempts t)\<rparr> # queue s\<rparr>) h = holders s h" for h
      using Cons by (simp add: holders_def)
    then show ?thesis
      using inv by (simp add: handles_inv_def)
  qed
  have drop0: "handles_inv (settle (handle t) v (s\<lparr>executing := others\<rparr>))" for v
    using drop [of v "failures s"] by simp
  show "handles_inv (executorSettled r s)"
    using Cons drop drop0 retry
    by (cases r) (simp_all add: executorSettled_def Let_def handles_inv_processQueue)
qed

lemma handles_inv_step: "handles_inv s \<Longrightarrow> handles_inv (step e s)"
proof (cases e)
  case (Elapse d)
  assume "handles_inv s"
  then show ?thesis using Elapse by (simp add: handles_inv_def holders_def)
qed (simp_all add: enqueue_def enqueueInline_def handles_inv_push handles_inv_clearQueue
       handles_inv_mutexRun handles_inv_executorSettled)


lemma handles_inv_live:
  "handles_inv s \<Longrightarrow> t \<in> set (queue s @ mutex s @ executing s) \<Longrightarrow>
     promises s (handle t) = None \<and> handle t < nextHandle s"
proof -
  assume inv: "handles_inv s" and t: "t \<in> set (queue s @ mutex s @ executing s)"
  from t have "handle t \<in> handle ` set (queue s @ mutex s @ executing s)" by (rule imageI)
  then have "0 < holders s (handle t)"
    unfolding holds_iff holders_def .
  with inv [unfolded handles_inv_def, rule_format, of "handle t"] show ?thesis by simp
qed

lemma handles_inv_apart:
  "handles_inv s \<Longrightarrow> t \<in> set (mutex s @ executing s) \<Longrightarrow> handle t \<notin> handle ` set (queue s)"
proof
  assume inv: "handles_inv s" and t: "t \<in> set (mutex s @ executing s)"
    and q: "handle t \<in> handle ` set (queue s)"
  from t have "handle t \<in> handle ` set (mutex s @ executing s)" by (rule imageI)
  then have "0 < length (filter (\<lambda>u. handle u = handle t) (mutex s @ executing s))"
    unfolding holds_iff .
  moreover from q have "0 < length (filter (\<lambda>u. handle u = handle t) (queue s))"
    unfolding holds_iff .
  ultimately have "1 < holders s (handle t)"
    unfolding holders_def filter_append length_append by linarith
  with inv [unfolded handles_inv_def, rule_format, of "handle t"] show False by simp
qed



lemma enqueue_on_init:
  "enqueue n ps init =
     \<lparr>queue = [], processing = True,
      mutex = [\<lparr>payload = Script n ps, handle = 0, attempts = 0, maxAttempts = 3\<rparr>],
      executing = [], promises = Map.empty, nextHandle = Suc 0, now = 0, calls = [], failures = []\<rparr>"
  by (simp add: init_def enqueue_def push_def processQueue_def Let_def)

lemma calls_step_prefix: "\<exists>r. calls (step e s) = calls s @ r"
  by (cases e) (auto simp: queue_defs split: list.splits outcome.splits)

lemma calls_run_prefix: "\<exists>r. calls (run es s) = calls s @ r"
proof (induction es arbitrary: s)
  case Nil
  show ?case by simp
next
  case (Cons e es)
  obtain r1 where r1: "calls (step e s) = calls s @ r1"
    using calls_step_prefix by blast
  obtain r2 where "calls (run es (step e s)) = calls (step e s) @ r2"
    using Cons.IH by blast
  with r1 show ?case by simp
qed

text \<open>One failed attempt of the task whose callback is chained.\<close>

lemma failed_attempt_retry:
  assumes "executing s = [t]" "mutex s = []" "attempts t < maxAttempts t"
  shows "executorSettled (Rejected e) s =
     s\<lparr>executing := [], failures := failures s @ [(now s, t)], processing := True,
       queue := queue s, mutex := [t\<lparr>attempts := Suc (attempts t)\<rparr>]\<rparr>"
  using assms by (simp add: executorSettled_def processQueue_def Let_def)

lemma waiting_retry_frame:
  assumes "processing s" "mutex s = [t]" "executing s = []" "e \<noteq> MutexRun"
  shows "processing (step e s) \<and> mutex (step e s) = [t] \<and> executing (step e s) = [] \<and>
         calls (step e s) = calls s"
  using assms
  by (cases e) (auto simp: enqueue_def enqueueInline_def push_def clearQueue_def executorSettled_def Let_def)

lemma waiting_retry_run:
  assumes "processing s" "mutex s = [t]" "executing s = []" "MutexRun \<notin> set es"
  shows "processing (run es s) \<and> mutex (run es s) = [t] \<and> executing (run es s) = [] \<and>
         calls (run es s) = calls s"
  using assms
proof (induction es arbitrary: s)
  case Nil
  then show ?case by simp
next
  case (Cons e es)
  have "e \<noteq> MutexRun" using Cons.prems(4) by auto
  from waiting_retry_frame [OF Cons.prems(1-3) this] Cons.IH [of "step e s"] Cons.prems(4)
  show ?case by simp
qed

lemma next_call_is_chained:
  assumes "processing s" "mutex s = [t]" "executing s = []"
  shows "calls (run es s) = calls s \<or> (\<exists>tm r. calls (run es s) = calls s @ (tm, t) # r)"
  using assms
proof (induction es arbitrary: s)
  case Nil
  then show ?case by simp
next
  case (Cons e es)
  show ?case
  proof (cases "e = MutexRun")
    case True
    have "calls (step e s) = calls s @ [(now s, t)]"
      using True Cons.prems by (simp add: mutexRun_def)
    moreover obtain r where "calls (run es (step e s)) = calls (step e s) @ r"
      using calls_run_prefix by blast
    ultimately show ?thesis by simp
  next
    case False
    from waiting_retry_frame [OF Cons.prems False] Cons.IH [of "step e s"]
    show ?thesis by simp
  qed
qed

text \<open>
  Claim C8. In every reachable state where a task A is inside the executor and has
  attempts left, whatever waits in the queue (a task B enqueued after A, say): when
  A's attempt fails, the queue is as before, with B still waiting, A with one more
  attempt is the callback chained on \<open>mutex\<close>, and in every continuation the next
  call of the executor, if there is one, is for A.
\<close>

theorem retry_runs_before_later_commands:
  "(let s = run es0 init in
      executing s = [A] \<and> attempts A < maxAttempts A \<longrightarrow>
      (let s1 = executorSettled (Rejected e) s; A' = A\<lparr>attempts := Suc (attempts A)\<rparr> in
         queue s1 = queue s \<and> mutex s1 = [A'] \<and> executing s1 = [] \<and>
         (\<forall>es. calls (run es s1) = calls s \<or>
               (\<exists>tm r. calls (run es s1) = calls s @ (tm, A') # r))))"
proof -
  define s where "s = run es0 init"
  have winv: "worker_inv s"
    unfolding s_def by (rule worker_inv_run [OF worker_inv_init])
  {
    assume ex: "executing s = [A]" and lt: "attempts A < maxAttempts A"
    have m: "mutex s = []"
      using winv ex by (simp add: worker_inv_def split: if_splits)
    note eq = failed_attempt_retry [OF ex m lt, of e]
    have "queue (executorSettled (Rejected e) s) = queue s"
      "mutex (executorSettled (Rejected e) s) = [A\<lparr>attempts := Suc (attempts A)\<rparr>]"
      "executing (executorSettled (Rejected e) s) = []"
      "processing (executorSettled (Rejected e) s)"
      "calls (executorSettled (Rejected e) s) = calls s"
      by (simp_all add: eq)
    note f = this
    have "calls (run es (executorSettled (Rejected e) s)) = calls s \<or>
               (\<exists>tm r. calls (run es (executorSettled (Rejected e) s)) = calls s @ (tm, A\<lparr>attempts := Suc (attempts A)\<rparr>) # r)" for es
      using next_call_is_chained [OF f(4) f(2) f(3), of es] by (simp add: f(5))
    note this f
  }
  then show ?thesis
    unfolding Let_def s_def [symmetric] by blast
qed


theorem retry_runs_before_later_commands_witness:
  "(let s = run [Enqueue ''A'' [], Enqueue ''B'' [], MutexRun] init;
        A = \<lparr>payload = Script ''A'' [], handle = 0, attempts = 0, maxAttempts = 3\<rparr>;
        B = \<lparr>payload = Script ''B'' [], handle = 1, attempts = 0, maxAttempts = 3\<rparr>;
        s1 = executorSettled (Rejected ''boom'') s in
      executing s = [A] \<and> attempts A < maxAttempts A \<and> queue s = [B] \<and>
      queue s1 = [B] \<and> mutex s1 = [A\<lparr>attempts := 1\<rparr>] \<and> executing s1 = [] \<and>
      map snd (calls (run [MutexRun, ExecutorSettled (Resolved ''OK''), MutexRun] s1)) =
        [A, A\<lparr>attempts := 1\<rparr>, B])"
  using retry_runs_before_later_commands [of "[Enqueue ''A'' [], Enqueue ''B'' [], MutexRun]"
      "\<lparr>payload = Script ''A'' [], handle = 0, attempts = 0, maxAttempts = 3\<rparr>" "''boom''"]
  by (simp add: init_def queue_defs settle_def)

text \<open>k failed attempts in a row of the chained task, none of them the last.\<close>

lemma failing_rounds:
  assumes "mutex s = [t]" "executing s = []" "attempts t + k \<le> maxAttempts t"
  shows "run (failing k err) s =
     s\<lparr>executing := [], failures := failures s @ map (\<lambda>i. (now s, t\<lparr>attempts := attempts t + i\<rparr>)) [0..<k],
       processing := (if k = 0 then processing s else True),
       mutex := [t\<lparr>attempts := attempts t + k\<rparr>],
       calls := calls s @ map (\<lambda>i. (now s, t\<lparr>attempts := attempts t + i\<rparr>)) [0..<k]\<rparr>"
  using assms
proof (induction k)
  case 0
  then show ?case by simp
next
  case (Suc k)
  have le: "attempts t + k \<le> maxAttempts t" and lt: "attempts t + k < maxAttempts t"
    using Suc.prems(3) by simp_all
  note ih = Suc.IH [OF Suc.prems(1,2) le]
  show ?case
    using lt
    by (simp add: run_append ih mutexRun_def executorSettled_def processQueue_def Let_def)
qed

lemma last_failed_attempt:
  assumes "mutex s = [t]" "executing s = []" "maxAttempts t \<le> attempts t"
    "promises s (handle t) = None"
  shows "promises (run [MutexRun, ExecutorSettled (Rejected e)] s) (handle t) = Some (Rejected e) \<and>
     calls (run [MutexRun, ExecutorSettled (Rejected e)] s) = calls s @ [(now s, t)] \<and>
     executing (run [MutexRun, ExecutorSettled (Rejected e)] s) = []"
  using assms
  by (simp add: mutexRun_def executorSettled_def Let_def settle_promises)

lemma succeeding_attempt:
  assumes "mutex s = [t]" "executing s = []" "promises s (handle t) = None"
  shows "promises (run [MutexRun, ExecutorSettled (Resolved v)] s) (handle t) = Some (Resolved v) \<and>
     calls (run [MutexRun, ExecutorSettled (Resolved v)] s) = calls s @ [(now s, t)] \<and>
     executing (run [MutexRun, ExecutorSettled (Resolved v)] s) = []"
  using assms
  by (simp add: mutexRun_def executorSettled_def Let_def settle_promises)

lemma failing_schedule:
  "mutex s = [t] \<and> executing s = [] \<and> promises s (handle t) = None \<and> attempts t = 0 \<longrightarrow>
     (\<forall>k \<le> maxAttempts t.
        promises (run (failing k err) s) (handle t) = None \<and>
        map snd (calls (run (failing k err) s)) =
          map snd (calls s) @ map (\<lambda>i. t\<lparr>attempts := i\<rparr>) [0..<k]) \<and>
     (let s' = run (failing (Suc (maxAttempts t)) err) s in
        map snd (calls s') = map snd (calls s) @ map (\<lambda>i. t\<lparr>attempts := i\<rparr>) [0..<Suc (maxAttempts t)] \<and>
        length (calls s') = length (calls s) + (maxAttempts t + 1) \<and>
        promises s' (handle t) = Some (Rejected (err (maxAttempts t))) \<and>
        executing s' = []) \<and>
     (0 < maxAttempts t \<longrightarrow>
       (let s' = run [MutexRun, ExecutorSettled (Rejected e), MutexRun, ExecutorSettled (Resolved v)] s in
          map snd (calls s') = map snd (calls s) @ [t, t\<lparr>attempts := 1\<rparr>] \<and>
          length (calls s') = length (calls s) + 2 \<and>
          promises s' (handle t) = Some (Resolved v) \<and>
          executing s' = []))"
proof (intro impI, elim conjE)
  assume m: "mutex s = [t]" and ex: "executing s = []" and pr: "promises s (handle t) = None"
    and a0: "attempts t = 0"
  have rounds: "run (failing k err) s =
     s\<lparr>executing := [], failures := failures s @ map (\<lambda>i. (now s, t\<lparr>attempts := i\<rparr>)) [0..<k],
       processing := (if k = 0 then processing s else True),
       mutex := [t\<lparr>attempts := k\<rparr>],
       calls := calls s @ map (\<lambda>i. (now s, t\<lparr>attempts := i\<rparr>)) [0..<k]\<rparr>"
    if "k \<le> maxAttempts t" for k err
    using failing_rounds [OF m ex, of k err] that a0 by simp
  have part1: "\<forall>k \<le> maxAttempts t.
        promises (run (failing k err) s) (handle t) = None \<and>
        map snd (calls (run (failing k err) s)) =
          map snd (calls s) @ map (\<lambda>i. t\<lparr>attempts := i\<rparr>) [0..<k]"
    using pr by (simp add: rounds comp_def)
  define sm where "sm = run (failing (maxAttempts t) err) s"
  have sm: "mutex sm = [t\<lparr>attempts := maxAttempts t\<rparr>]" "executing sm = []"
    "promises sm (handle t) = None" "now sm = now s"
    "calls sm = calls s @ map (\<lambda>i. (now s, t\<lparr>attempts := i\<rparr>)) [0..<maxAttempts t]"
    using pr by (simp_all add: sm_def rounds)
  have last: "run (failing (Suc (maxAttempts t)) err) s =
      run [MutexRun, ExecutorSettled (Rejected (err (maxAttempts t)))] sm"
    by (simp add: sm_def run_append)
  have part2: "(let s' = run (failing (Suc (maxAttempts t)) err) s in
        map snd (calls s') = map snd (calls s) @ map (\<lambda>i. t\<lparr>attempts := i\<rparr>) [0..<Suc (maxAttempts t)] \<and>
        length (calls s') = length (calls s) + (maxAttempts t + 1) \<and>
        promises s' (handle t) = Some (Rejected (err (maxAttempts t))) \<and>
        executing s' = [])"
    unfolding Let_def last
    using last_failed_attempt [of sm "t\<lparr>attempts := maxAttempts t\<rparr>" "err (maxAttempts t)"] sm
    by (simp add: comp_def)
  have part3: "(let s' = run [MutexRun, ExecutorSettled (Rejected e), MutexRun, ExecutorSettled (Resolved v)] s in
          map snd (calls s') = map snd (calls s) @ [t, t\<lparr>attempts := 1\<rparr>] \<and>
          length (calls s') = length (calls s) + 2 \<and>
          promises s' (handle t) = Some (Resolved v) \<and>
          executing s' = [])" if pos: "0 < maxAttempts t"
  proof -
    have one: "run (failing 1 (\<lambda>_. e)) s =
     s\<lparr>executing := [], failures := failures s @ [(now s, t)],
       processing := True, mutex := [t\<lparr>attempts := 1\<rparr>],
       calls := calls s @ [(now s, t)]\<rparr>"
    proof -
      have t0: "t\<lparr>attempts := 0\<rparr> = t"
        using a0 by simp
      show ?thesis
        using rounds [of 1 "\<lambda>_. e"] pos by (simp add: t0)
    qed
    define s1 where "s1 = run (failing 1 (\<lambda>_. e)) s"
    have s1: "mutex s1 = [t\<lparr>attempts := 1\<rparr>]" "executing s1 = []"
      "promises s1 (handle (t\<lparr>attempts := 1\<rparr>)) = None"
      "calls s1 = calls s @ [(now s, t)]" "now s1 = now s"
      unfolding s1_def one using pr by simp_all
    have split: "run [MutexRun, ExecutorSettled (Rejected e), MutexRun, ExecutorSettled (Resolved v)] s =
        run [MutexRun, ExecutorSettled (Resolved v)] s1"
      by (simp add: s1_def)
    show ?thesis
      unfolding Let_def split
      using succeeding_attempt [OF s1(1,2,3), of v]
      by (simp add: s1(4,5))
  qed
  show "(\<forall>k \<le> maxAttempts t.
        promises (run (failing k err) s) (handle t) = None \<and>
        map snd (calls (run (failing k err) s)) =
          map snd (calls s) @ map (\<lambda>i. t\<lparr>attempts := i\<rparr>) [0..<k]) \<and>
     (let s' = run (failing (Suc (maxAttempts t)) err) s in
        map snd (calls s') = map snd (calls s) @ map (\<lambda>i. t\<lparr>attempts := i\<rparr>) [0..<Suc (maxAttempts t)] \<and>
        length (calls s') = length (calls s) + (maxAttempts t + 1) \<and>
        promises s' (handle t) = Some (Rejected (err (maxAttempts t))) \<and>
        executing s' = []) \<and>
     (0 < maxAttempts t \<longrightarrow>
       (let s' = run [MutexRun, ExecutorSettled (Rejected e), MutexRun, ExecutorSettled (Resolved v)] s in
          map snd (calls s') = map snd (calls s) @ [t, t\<lparr>attempts := 1\<rparr>] \<and>
          length (calls s') = length (calls s) + 2 \<and>
          promises s' (handle t) = Some (Resolved v) \<and>
          executing s' = []))"
    using part1 part2 part3 by blast
qed


lemma counters_cong:
  "calls s' = calls s \<Longrightarrow> callsFor h s' = callsFor h s"
  "failures s' = failures s \<Longrightarrow> failuresFor h s' = failuresFor h s"
  by (simp_all add: callsFor_def failuresFor_def)

lemma attempted_cong:
  "calls s' = calls s \<Longrightarrow> failures s' = failures s \<Longrightarrow> attempted s' x t = attempted s x t"
  by (simp add: attempted_def callsFor_def failuresFor_def)

lemma finished_cong:
  "calls s' = calls s \<Longrightarrow> failures s' = failures s \<Longrightarrow> promises s' h = promises s h \<Longrightarrow>
     finished s' h = finished s h"
  by (simp add: finished_def callsFor_def failuresFor_def split: option.splits outcome.splits)

lemma finished_same:
  "callsFor h s' = callsFor h s \<Longrightarrow> failuresFor h s' = failuresFor h s \<Longrightarrow>
     promises s' h = promises s h \<Longrightarrow> finished s' h = finished s h"
  by (simp add: finished_def split: option.splits outcome.splits)

lemma holders_zero_iff:
  "holders s h = 0 \<longleftrightarrow> h \<notin> handle ` set (queue s @ mutex s @ executing s)"
  unfolding holds_iff holders_def by auto

lemma attempts_inv_cong:
  assumes "queue s' = queue s" "mutex s' = mutex s" "executing s' = executing s"
    "calls s' = calls s" "failures s' = failures s" "promises s' = promises s"
    "nextHandle s' = nextHandle s"
  shows "attempts_inv s' = attempts_inv s"
  unfolding attempts_inv_def attempted_def finished_def callsFor_def failuresFor_def holders_def
  by (simp only: assms)

lemma attempts_inv_init: "attempts_inv init"
  by (simp add: attempts_inv_def init_def callsFor_def failuresFor_def holders_def)

lemma attempts_inv_processQueue:
  assumes "attempts_inv s"
  shows "attempts_inv (processQueue s)"
proof (cases "queue s")
  case Nil
  have "attempts_inv (s\<lparr>processing := False\<rparr>) = attempts_inv s"
    by (rule attempts_inv_cong) simp_all
  with Nil assms show ?thesis by (simp add: processQueue_def)
next
  case (Cons t q)
  let ?s' = "s\<lparr>processing := True, queue := q, mutex := mutex s @ [t]\<rparr>"
  have h: "holders ?s' h = holders s h" for h
    using Cons by (simp add: holders_def)
  have a: "attempted ?s' x u = attempted s x u" for x u
    by (rule attempted_cong) simp_all
  have f: "finished ?s' h = finished s h" for h
    by (rule finished_cong) simp_all
  have c: "callsFor h ?s' = callsFor h s" "failuresFor h ?s' = failuresFor h s" for h
    by (simp_all add: callsFor_def failuresFor_def)
  have q: "\<forall>u \<in> set (queue s). attempts u = 0 \<and> attempted s 0 u"
    and m: "\<forall>u \<in> set (mutex s). attempted s 0 u"
    and e: "\<forall>u \<in> set (executing s). attempted s 1 u"
    and n: "\<forall>h. nextHandle s \<le> h \<longrightarrow> callsFor h s = 0 \<and> failuresFor h s = 0"
    and d: "\<forall>h. h < nextHandle s \<and> holders s h = 0 \<longrightarrow> finished s h"
    using assms by (simp_all add: attempts_inv_def)
  have "attempts_inv ?s'"
    unfolding attempts_inv_def h a f c
    using q m e n d Cons by simp
  with Cons show ?thesis by (simp add: processQueue_def)
qed


lemma callsFor_snoc:
  "calls s' = calls s @ [(tm, t)] \<Longrightarrow> callsFor h s' = callsFor h s + (if handle t = h then 1 else 0)"
  by (simp add: callsFor_def)

lemma failuresFor_snoc:
  "failures s' = failures s @ [(tm, t)] \<Longrightarrow>
     failuresFor h s' = failuresFor h s + (if handle t = h then 1 else 0)"
  by (simp add: failuresFor_def)

lemma attempts_inv_parts:
  assumes "attempts_inv s"
  shows "\<And>u. u \<in> set (queue s) \<Longrightarrow> attempts u = 0 \<and> attempted s 0 u"
    and "\<And>u. u \<in> set (mutex s) \<Longrightarrow> attempted s 0 u"
    and "\<And>u. u \<in> set (executing s) \<Longrightarrow> attempted s 1 u"
    and "\<And>h. nextHandle s \<le> h \<Longrightarrow> callsFor h s = 0 \<and> failuresFor h s = 0"
    and "\<And>h. h < nextHandle s \<Longrightarrow> holders s h = 0 \<Longrightarrow> finished s h"
  using assms by (simp_all add: attempts_inv_def)

lemma attempts_invI:
  assumes "\<And>u. u \<in> set (queue s) \<Longrightarrow> attempts u = 0 \<and> attempted s 0 u"
    and "\<And>u. u \<in> set (mutex s) \<Longrightarrow> attempted s 0 u"
    and "\<And>u. u \<in> set (executing s) \<Longrightarrow> attempted s 1 u"
    and "\<And>h. nextHandle s \<le> h \<Longrightarrow> callsFor h s = 0 \<and> failuresFor h s = 0"
    and "\<And>h. h < nextHandle s \<Longrightarrow> holders s h = 0 \<Longrightarrow> finished s h"
  shows "attempts_inv s"
  using assms by (simp add: attempts_inv_def)

lemma attempts_inv_push:
  assumes inv: "attempts_inv s"
  shows "attempts_inv (push p s)"
proof -
  define new where "new = \<lparr>payload = p, handle = nextHandle s, attempts = 0, maxAttempts = 3\<rparr>"
  define s1 where "s1 = s\<lparr>queue := queue s @ [new], nextHandle := Suc (nextHandle s)\<rparr>"
  note P = attempts_inv_parts [OF inv]
  have a: "attempted s1 x u = attempted s x u" for x u
    by (rule attempted_cong) (simp_all add: s1_def)
  have c: "callsFor h s1 = callsFor h s" "failuresFor h s1 = failuresFor h s" for h
    by (simp_all add: callsFor_def failuresFor_def s1_def)
  have f: "finished s1 h = finished s h" for h
    by (rule finished_cong) (simp_all add: s1_def)
  have hd: "holders s1 h = holders s h + (if h = nextHandle s then 1 else 0)" for h
    by (auto simp: s1_def holders_def new_def)
  have nw: "attempts new = 0 \<and> attempted s 0 new"
    using P(4) [of "nextHandle s"] by (simp add: attempted_def new_def)
  have "attempts_inv s1"
  proof (rule attempts_invI)
    fix u assume "u \<in> set (queue s1)"
    then have "u \<in> set (queue s) \<or> u = new" by (auto simp: s1_def)
    then show "attempts u = 0 \<and> attempted s1 0 u"
      unfolding a using P(1) [of u] nw by auto
  next
    fix u assume "u \<in> set (mutex s1)"
    then show "attempted s1 0 u" unfolding a using P(2) by (simp add: s1_def)
  next
    fix u assume "u \<in> set (executing s1)"
    then show "attempted s1 1 u" unfolding a using P(3) by (simp add: s1_def)
  next
    fix h assume "nextHandle s1 \<le> h"
    then show "callsFor h s1 = 0 \<and> failuresFor h s1 = 0"
      unfolding c using P(4) [of h] by (simp add: s1_def)
  next
    fix h assume "h < nextHandle s1" "holders s1 h = 0"
    then have "h < nextHandle s" "holders s h = 0"
      unfolding hd by (auto simp: s1_def split: if_splits)
    then show "finished s1 h" unfolding f by (rule P(5))
  qed
  then show ?thesis
    by (simp add: push_def Let_def s1_def new_def attempts_inv_processQueue)
qed

lemma attempts_inv_clearQueue:
  assumes inv: "attempts_inv s" and hinv: "handles_inv s"
  shows "attempts_inv (clearQueue r s)"
proof (cases "queue s")
  case Nil
  then show ?thesis using inv by (simp add: clearQueue_def)
next
  case (Cons q0 qs)
  define s' where "s' = clearQueue r s"
  note P = attempts_inv_parts [OF inv]
  have fr: "queue s' = []" "mutex s' = mutex s" "executing s' = executing s" "calls s' = calls s"
    "failures s' = failures s" "nextHandle s' = nextHandle s"
    by (simp_all add: s'_def clearQueue_def)
  have pr: "promises s' h =
      (if h \<in> handle ` set (queue s) \<and> promises s h = None
       then Some (Rejected (''Task cancelled: '' @ r)) else promises s h)" for h
  proof -
    have "queue s \<noteq> []" using Cons by simp
    then show ?thesis
      by (simp add: s'_def clearQueue_def fold_settle_promises)
  qed
  have a: "attempted s' x u = attempted s x u" for x u
    by (rule attempted_cong) (simp_all add: fr)
  have c: "callsFor h s' = callsFor h s" "failuresFor h s' = failuresFor h s" for h
    by (simp_all add: callsFor_def failuresFor_def fr)
  have "attempts_inv s'"
  proof (rule attempts_invI)
    fix u assume "u \<in> set (queue s')"
    then show "attempts u = 0 \<and> attempted s' 0 u" by (simp add: fr)
  next
    fix u assume "u \<in> set (mutex s')"
    then show "attempted s' 0 u" unfolding a using P(2) by (simp add: fr)
  next
    fix u assume "u \<in> set (executing s')"
    then show "attempted s' 1 u" unfolding a using P(3) by (simp add: fr)
  next
    fix h assume "nextHandle s' \<le> h"
    then show "callsFor h s' = 0 \<and> failuresFor h s' = 0"
      unfolding c using P(4) [of h] by (simp add: fr)
  next
    fix h assume lt: "h < nextHandle s'" and z: "holders s' h = 0"
    show "finished s' h"
    proof (cases "h \<in> handle ` set (queue s)")
      case True
      then obtain u where u: "u \<in> set (queue s)" "handle u = h" by auto
      have "promises s h = None"
        using handles_inv_live [OF hinv, of u] u by simp
      then have p: "promises s' h = Some (Rejected (''Task cancelled: '' @ r))"
        using True by (simp add: pr)
      have "callsFor h s = 0 \<and> failuresFor h s = 0"
        using P(1) [OF u(1)] u(2) by (simp add: attempted_def)
      then show ?thesis
        by (simp add: finished_def p c)
    next
      case False
      have z': "holders s h = 0"
        using z False unfolding holders_zero_iff by (auto simp: fr)
      have "finished s h"
        using P(5) [of h] lt z' by (simp add: fr)
      moreover have "finished s' h = finished s h"
        by (rule finished_cong) (simp_all add: fr pr False)
      ultimately show ?thesis by simp
    qed
  qed
  then show ?thesis by (simp add: s'_def)
qed

lemma attempts_inv_mutexRun:
  assumes inv: "attempts_inv s" and hinv: "handles_inv s" and winv: "worker_inv s"
  shows "attempts_inv (mutexRun s)"
proof (cases "mutex s")
  case Nil
  then show ?thesis using inv by (simp add: mutexRun_def)
next
  case (Cons t rest)
  have shape: "rest = []" "executing s = []"
    using winv Cons by (simp_all add: worker_inv_def split: if_splits)
  define s' where "s' = s\<lparr>mutex := [], executing := [t], calls := calls s @ [(now s, t)]\<rparr>"
  have eq: "mutexRun s = s'"
    using Cons shape by (simp add: mutexRun_def s'_def)
  note P = attempts_inv_parts [OF inv]
  have tl: "t \<in> set (queue s @ mutex s @ executing s)" "t \<in> set (mutex s @ executing s)"
    using Cons by simp_all
  have tn: "handle t < nextHandle s"
    using handles_inv_live [OF hinv tl(1)] by simp
  have tq: "handle t \<notin> handle ` set (queue s)"
    by (rule handles_inv_apart [OF hinv tl(2)])
  have th: "holders s (handle t) \<noteq> 0"
    unfolding holders_zero_iff using tl(1) by blast
  have c: "callsFor h s' = callsFor h s + (if handle t = h then 1 else 0)" for h
    by (rule callsFor_snoc) (simp add: s'_def)
  have fl: "failuresFor h s' = failuresFor h s" for h
    by (simp add: failuresFor_def s'_def)
  have hd: "holders s' h = holders s h" for h
    using Cons shape by (simp add: holders_def s'_def)
  have "attempts_inv s'"
  proof (rule attempts_invI)
    fix u assume u: "u \<in> set (queue s')"
    then have uq: "u \<in> set (queue s)" by (simp add: s'_def)
    then have "handle u \<noteq> handle t" using tq by (metis imageI)
    then show "attempts u = 0 \<and> attempted s' 0 u"
      using P(1) [OF uq] by (simp add: attempted_def c fl)
  next
    fix u assume "u \<in> set (mutex s')"
    then show "attempted s' 0 u" by (simp add: s'_def)
  next
    fix u assume "u \<in> set (executing s')"
    then have "u = t" by (simp add: s'_def)
    then show "attempted s' 1 u"
      using P(2) [of t] Cons by (simp add: attempted_def c fl)
  next
    fix h assume "nextHandle s' \<le> h"
    then have "nextHandle s \<le> h" "h \<noteq> handle t" using tn by (simp_all add: s'_def)
    then show "callsFor h s' = 0 \<and> failuresFor h s' = 0"
      using P(4) [of h] by (simp add: c fl)
  next
    fix h assume "h < nextHandle s'" "holders s' h = 0"
    then have lt: "h < nextHandle s" and z: "holders s h = 0"
      unfolding hd by (simp_all add: s'_def)
    then have ne: "handle t \<noteq> h" using th by auto
    have "callsFor h s' = callsFor h s" "promises s' h = promises s h"
      using ne by (simp_all add: c) (simp add: s'_def)
    then have "finished s' h = finished s h"
      by (intro finished_same fl)
    then show "finished s' h" using P(5) [OF lt z] by simp
  qed
  then show ?thesis by (simp add: eq)
qed


lemma attempts_inv_executorSettled:
  assumes inv: "attempts_inv s" and hinv: "handles_inv s" and winv: "worker_inv s"
  shows "attempts_inv (executorSettled r s)"
proof (cases "executing s")
  case Nil
  then show ?thesis using inv by (simp add: executorSettled_def)
next
  case (Cons t others)
  have shape: "others = []" "mutex s = []"
    using winv Cons by (simp_all add: worker_inv_def split: if_splits)
  note P = attempts_inv_parts [OF inv]
  have tl: "t \<in> set (queue s @ mutex s @ executing s)" "t \<in> set (mutex s @ executing s)"
    using Cons by simp_all
  have tn: "handle t < nextHandle s" and tp: "promises s (handle t) = None"
    using handles_inv_live [OF hinv tl(1)] by simp_all
  have tq: "handle t \<notin> handle ` set (queue s)"
    by (rule handles_inv_apart [OF hinv tl(2)])
  have ta: "attempted s 1 t"
    using P(3) [of t] Cons by simp
  have qne: "handle u \<noteq> handle t" if "u \<in> set (queue s)" for u
    using that tq by (metis imageI)
  have hq: "holders s h = length (filter (\<lambda>u. handle u = h) (queue s)) + (if handle t = h then 1 else 0)" for h
    using Cons shape by (simp add: holders_def)
  have gone: "attempts_inv (settle (handle t) v (s\<lparr>executing := [], failures := fs\<rparr>))"
    if fs: "fs = failures s \<or> fs = failures s @ [(now s, t)]"
      and fin: "finished (settle (handle t) v (s\<lparr>executing := [], failures := fs\<rparr>)) (handle t)"
    for v fs
  proof -
    define s' where "s' = settle (handle t) v (s\<lparr>executing := [], failures := fs\<rparr>)"
    have fr: "queue s' = queue s" "mutex s' = []" "executing s' = []" "calls s' = calls s"
      "failures s' = fs" "nextHandle s' = nextHandle s"
      by (simp_all add: s'_def shape)
    have pr: "promises s' h = (if h = handle t then Some v else promises s h)" for h
      using tp by (simp add: s'_def settle_promises)
    have c: "callsFor h s' = callsFor h s" for h
      by (simp add: callsFor_def fr)
    have fl: "failuresFor h s' = failuresFor h s" if "h \<noteq> handle t" for h
      using fs that by (auto simp: failuresFor_def fr)
    have hd: "holders s' h = length (filter (\<lambda>u. handle u = h) (queue s))" for h
      by (simp add: holders_def fr)
    show "attempts_inv s'"
    proof (rule attempts_invI)
      fix u assume "u \<in> set (queue s')"
      then have uq: "u \<in> set (queue s)" by (simp add: fr)
      show "attempts u = 0 \<and> attempted s' 0 u"
        using P(1) [OF uq] qne [OF uq] by (simp add: attempted_def c fl)
    next
      fix u assume "u \<in> set (mutex s')"
      then show "attempted s' 0 u" by (simp add: fr)
    next
      fix u assume "u \<in> set (executing s')"
      then show "attempted s' 1 u" by (simp add: fr)
    next
      fix h assume "nextHandle s' \<le> h"
      then have "nextHandle s \<le> h" "h \<noteq> handle t" using tn by (simp_all add: fr)
      then show "callsFor h s' = 0 \<and> failuresFor h s' = 0"
        using P(4) [of h] by (simp add: c fl)
    next
      fix h assume lt: "h < nextHandle s'" and z: "holders s' h = 0"
      show "finished s' h"
      proof (cases "h = handle t")
        case True
        then show ?thesis using fin by (simp add: s'_def)
      next
        case False
        have "holders s h = 0" using z False unfolding hd hq by simp
        then have "finished s h" using P(5) [of h] lt by (simp add: fr)
        moreover have "finished s' h = finished s h"
          by (rule finished_same) (simp_all add: c fl False pr)
        ultimately show ?thesis by simp
      qed
    qed
  qed
  have cnt: "maxAttempts t = 3" "attempts t \<le> 3" "callsFor (handle t) s = attempts t + 1"
    "failuresFor (handle t) s = attempts t"
    using ta by (simp_all add: attempted_def)
  show ?thesis
  proof (cases r)
    case (Resolved v)
    have "finished (settle (handle t) (Resolved v) (s\<lparr>executing := [], failures := failures s\<rparr>)) (handle t)"
      using tp cnt by (simp add: finished_def settle_promises callsFor_def failuresFor_def)
    then have "attempts_inv (settle (handle t) (Resolved v) (s\<lparr>executing := [], failures := failures s\<rparr>))"
      by (intro gone) simp
    then show ?thesis
      using Cons shape Resolved by (simp add: executorSettled_def Let_def attempts_inv_processQueue)
  next
    case (Rejected e)
    show ?thesis
    proof (cases "attempts t < maxAttempts t")
      case False
      then have a3: "attempts t = 3" using cnt by simp
      have "finished (settle (handle t) (Rejected e)
              (s\<lparr>executing := [], failures := failures s @ [(now s, t)]\<rparr>)) (handle t)"
        using tp cnt a3 by (simp add: finished_def settle_promises callsFor_def failuresFor_def)
      then have "attempts_inv (settle (handle t) (Rejected e)
              (s\<lparr>executing := [], failures := failures s @ [(now s, t)]\<rparr>))"
        by (intro gone) simp
      then show ?thesis
        using Cons shape Rejected False
        by (simp add: executorSettled_def Let_def attempts_inv_processQueue)
    next
      case True
      define t' where "t' = t\<lparr>attempts := Suc (attempts t)\<rparr>"
      define s' where "s' = s\<lparr>executing := [], failures := failures s @ [(now s, t)],
          processing := True, mutex := [t']\<rparr>"
      have eq: "executorSettled r s = s'"
        using Cons shape Rejected True
        by (simp add: executorSettled_def processQueue_def Let_def s'_def t'_def)
      have c: "callsFor h s' = callsFor h s" for h
        by (simp add: callsFor_def s'_def)
      have fl: "failuresFor h s' = failuresFor h s + (if handle t = h then 1 else 0)" for h
        by (rule failuresFor_snoc) (simp add: s'_def)
      have hd: "holders s' h = holders s h" for h
        using Cons shape by (simp add: holders_def s'_def t'_def)
      have th: "holders s (handle t) \<noteq> 0"
        unfolding hq by simp
      have "attempts_inv s'"
      proof (rule attempts_invI)
        fix u assume "u \<in> set (queue s')"
        then have uq: "u \<in> set (queue s)" by (simp add: s'_def)
        show "attempts u = 0 \<and> attempted s' 0 u"
          using P(1) [OF uq] qne [OF uq] by (simp add: attempted_def c fl)
      next
        fix u assume "u \<in> set (mutex s')"
        then have "u = t'" by (simp add: s'_def)
        then show "attempted s' 0 u"
          using cnt True by (simp add: attempted_def c fl t'_def)
      next
        fix u assume "u \<in> set (executing s')"
        then show "attempted s' 1 u" by (simp add: s'_def)
      next
        fix h assume "nextHandle s' \<le> h"
        then have "nextHandle s \<le> h" "h \<noteq> handle t" using tn by (simp_all add: s'_def)
        then show "callsFor h s' = 0 \<and> failuresFor h s' = 0"
          using P(4) [of h] by (simp add: c fl)
      next
        fix h assume "h < nextHandle s'" "holders s' h = 0"
        then have lt: "h < nextHandle s" and z: "holders s h = 0"
          unfolding hd by (simp_all add: s'_def)
        then have ne: "handle t \<noteq> h" using th by auto
        have "failuresFor h s' = failuresFor h s" "promises s' h = promises s h"
          using ne by (simp_all add: fl) (simp add: s'_def)
        then have "finished s' h = finished s h"
          by (intro finished_same c)
        then show "finished s' h" using P(5) [OF lt z] by simp
      qed
      then show ?thesis by (simp add: eq)
    qed
  qed
qed

lemma reach_inv_init: "reach_inv init"
  by (simp add: reach_inv_def worker_inv_init handles_inv_init attempts_inv_init)

lemma reach_inv_step: "reach_inv s \<Longrightarrow> reach_inv (step e s)"
proof -
  assume r: "reach_inv s"
  then have w: "worker_inv s" and h: "handles_inv s" and a: "attempts_inv s"
    by (simp_all add: reach_inv_def)
  have "attempts_inv (step e s)"
  proof (cases e)
    case (Elapse d)
    have "attempts_inv (s\<lparr>now := now s + d\<rparr>) = attempts_inv s"
      by (rule attempts_inv_cong) simp_all
    with a Elapse show ?thesis by simp
  qed (simp_all add: enqueue_def enqueueInline_def attempts_inv_push [OF a]
        attempts_inv_clearQueue [OF a h] attempts_inv_mutexRun [OF a h w]
        attempts_inv_executorSettled [OF a h w])
  then show ?thesis
    using worker_inv_step [OF w, of e] handles_inv_step [OF h, of e]
    by (simp add: reach_inv_def)
qed

lemma reach_inv_run: "reach_inv s \<Longrightarrow> reach_inv (run es s)"
  by (induction es arbitrary: s) (simp_all add: reach_inv_step)

lemma retired_step:
  assumes lt: "h < nextHandle s" and z: "holders s h = 0"
  shows "h < nextHandle (step e s) \<and> holders (step e s) h = 0 \<and>
     calls (step e s) = calls s @ filter (\<lambda>c. handle (snd c) \<noteq> h) (drop (length (calls s)) (calls (step e s))) \<and>
     promises (step e s) h = promises s h"
proof -
  have nl: "h \<notin> handle ` set (queue s)" "h \<notin> handle ` set (mutex s)" "h \<notin> handle ` set (executing s)"
    using z unfolding holders_zero_iff by auto
  have pq: "h < nextHandle (processQueue x) \<and> holders (processQueue x) h = 0 \<and>
      calls (processQueue x) = calls x \<and> promises (processQueue x) h = promises x h"
    if "h < nextHandle x" "holders x h = 0" for x
    using that by simp
  show ?thesis
  proof (cases e)
    case (Enqueue n ps)
    then show ?thesis
      using lt z pq
      by (auto simp: enqueue_def push_def Let_def holders_def)
  next
    case (EnqueueInline sc)
    then show ?thesis
      using lt z pq
      by (auto simp: enqueueInline_def push_def Let_def holders_def)
  next
    case (ClearQueue r)
    then show ?thesis
      using lt z nl
      by (auto simp: clearQueue_def holders_def fold_settle_promises)
  next
    case MutexRun
    then show ?thesis
      using lt z nl
      by (auto simp: mutexRun_def holders_def split: list.splits)
  next
    case (ExecutorSettled r)
    show ?thesis
    proof (cases "executing s")
      case Nil
      then show ?thesis using ExecutorSettled lt z by (simp add: executorSettled_def)
    next
      case (Cons t others)
      then have ne: "handle t \<noteq> h" using nl(3) by auto
      show ?thesis
        using ExecutorSettled Cons lt z ne nl
        by (cases r)
          (auto simp: executorSettled_def Let_def settle_promises holders_def processQueue_def
             split: list.splits)
    qed
  next
    case (Elapse d)
    then show ?thesis using lt z by (simp add: holders_def)
  qed
qed


lemma retired_run:
  "h < nextHandle s \<Longrightarrow> holders s h = 0 \<Longrightarrow>
     h < nextHandle (run es s) \<and> holders (run es s) h = 0 \<and>
     callsFor h (run es s) = callsFor h s \<and> promises (run es s) h = promises s h"
proof (induction es arbitrary: s)
  case Nil
  then show ?case by simp
next
  case (Cons e es)
  note st = retired_step [OF Cons.prems, of e]
  have "callsFor h (step e s) = callsFor h s"
  proof -
    have "calls (step e s) = calls s @ filter (\<lambda>c. handle (snd c) \<noteq> h) (drop (length (calls s)) (calls (step e s)))"
      using st by blast
    then have "callsFor h (step e s) =
        length (filter (\<lambda>c. handle (snd c) = h)
          (calls s @ filter (\<lambda>c. handle (snd c) \<noteq> h) (drop (length (calls s)) (calls (step e s)))))"
      unfolding callsFor_def by simp
    then show ?thesis by (simp add: callsFor_def)
  qed
  with st Cons.IH [of "step e s"] show ?case by simp
qed

lemma reach_bounds:
  assumes r: "reach_inv s"
  shows "callsFor h s \<le> 4 \<and> failuresFor h s \<le> callsFor h s"
proof -
  from r have hinv: "handles_inv s" and a: "attempts_inv s"
    by (simp_all add: reach_inv_def)
  note P = attempts_inv_parts [OF a]
  consider (fresh) "nextHandle s \<le> h" | (live) "h < nextHandle s" "holders s h \<noteq> 0"
    | (retired) "h < nextHandle s" "holders s h = 0"
    by linarith
  then show ?thesis
  proof cases
    case fresh
    then show ?thesis using P(4) [of h] by simp
  next
    case live
    then obtain u where u: "u \<in> set (queue s @ mutex s @ executing s)" "handle u = h"
      unfolding holders_zero_iff by auto
    then have "attempted s 0 u \<or> attempted s 1 u"
      using P(1) [of u] P(2) [of u] P(3) [of u] by auto
    then show ?thesis using u(2) by (auto simp: attempted_def)
  next
    case retired
    then have "finished s h" by (rule P(5))
    then show ?thesis
      by (auto simp: finished_def split: option.splits outcome.splits)
  qed
qed

lemma reach_settled:
  assumes r: "reach_inv s" and p: "promises s h \<noteq> None"
  shows "h < nextHandle s \<and> holders s h = 0 \<and> finished s h"
proof -
  from r have hinv: "handles_inv s" and a: "attempts_inv s"
    by (simp_all add: reach_inv_def)
  have "holders s h = 0" "h < nextHandle s"
    using hinv [unfolded handles_inv_def, rule_format, of h] p by auto
  then show ?thesis
    using attempts_inv_parts(5) [OF a, of h] by simp
qed

lemma reach_executing:
  assumes r: "reach_inv s" and ex: "executing s = [u]"
  shows "maxAttempts u = 3 \<and> attempts u \<le> 3 \<and> callsFor (handle u) s = attempts u + 1 \<and>
     failuresFor (handle u) s = attempts u \<and> promises s (handle u) = None \<and> mutex s = [] \<and>
     handle u \<notin> handle ` set (queue s)"
proof -
  from r have w: "worker_inv s" and hinv: "handles_inv s" and a: "attempts_inv s"
    by (simp_all add: reach_inv_def)
  have "attempted s 1 u"
    using attempts_inv_parts(3) [OF a, of u] ex by simp
  moreover have "promises s (handle u) = None"
    using handles_inv_live [OF hinv, of u] ex by simp
  moreover have "mutex s = []"
    using w ex by (simp add: worker_inv_def split: if_splits)
  moreover have "handle u \<notin> handle ` set (queue s)"
    using handles_inv_apart [OF hinv, of u] ex by simp
  ultimately show ?thesis by (simp add: attempted_def)
qed

lemma settle_in_executor:
  assumes ex: "executing s = [u]" and m: "mutex s = []" and p: "promises s (handle u) = None"
    and q: "handle u \<notin> handle ` set (queue s)"
  shows "promises (executorSettled (Resolved v) s) (handle u) = Some (Resolved v)"
    and "holders (executorSettled (Resolved v) s) (handle u) = 0"
    and "maxAttempts u \<le> attempts u \<Longrightarrow>
           promises (executorSettled (Rejected e) s) (handle u) = Some (Rejected e) \<and>
           holders (executorSettled (Rejected e) s) (handle u) = 0"
    and "attempts u < maxAttempts u \<Longrightarrow>
           promises (executorSettled (Rejected e) s) (handle u) = None \<and>
           mutex (executorSettled (Rejected e) s) = [u\<lparr>attempts := Suc (attempts u)\<rparr>] \<and>
           queue (executorSettled (Rejected e) s) = queue s"
proof -
  have z: "length (filter (\<lambda>t. handle t = handle u) (queue s)) = 0"
    using q unfolding holds_iff by simp
  have hz: "holders x (handle u) = 0"
    if "queue x = queue s" "mutex x = []" "executing x = []" for x
    using that z by (simp add: holders_def)
  show "promises (executorSettled (Resolved v) s) (handle u) = Some (Resolved v)"
    using ex p by (simp add: executorSettled_def Let_def settle_promises)
  show "holders (executorSettled (Resolved v) s) (handle u) = 0"
    using ex m by (simp add: executorSettled_def Let_def hz)
  show "promises (executorSettled (Rejected e) s) (handle u) = Some (Rejected e) \<and>
           holders (executorSettled (Rejected e) s) (handle u) = 0"
    if "maxAttempts u \<le> attempts u"
    using ex m p that by (simp add: executorSettled_def Let_def settle_promises hz)
  show "promises (executorSettled (Rejected e) s) (handle u) = None \<and>
           mutex (executorSettled (Rejected e) s) = [u\<lparr>attempts := Suc (attempts u)\<rparr>] \<and>
           queue (executorSettled (Rejected e) s) = queue s"
    if "attempts u < maxAttempts u"
    using ex m p that by (simp add: executorSettled_def Let_def processQueue_def)
qed

text \<open>
  Claim C2, as amended. For a task with \<open>attempts = 0\<close> whose callback is chained
  and whose promise is unsettled: when every attempt fails, the executor is called
  \<open>maxAttempts + 1\<close> times (4 times for the \<open>maxAttempts: 3\<close> of every enqueued
  task); the promise is still unsettled after each of the first \<open>maxAttempts\<close>
  failures and is rejected with the error of the last call. When the first attempt
  fails and the second succeeds (and \<open>maxAttempts\<close> is not 0), the executor is
  called exactly twice and the promise is resolved with the result.

  And in every reachable state, whatever was enqueued, cleared or run in between,
  for every promise: the executor has been called for it at most 4 times; a promise
  rejected after a call has had exactly 4 calls and all 4 failed; a resolved
  promise has had exactly one call that did not fail; once a promise is settled its
  task has left the object, and no continuation calls the executor for it again
  or changes it. The task inside the executor has \<open>maxAttempts = 3\<close>; when it
  succeeds its promise is resolved with the result and the task is gone; when it
  fails with \<open>attempts = 3\<close> its promise is rejected with that error and the task
  is gone; when it fails earlier the promise stays unsettled and the retry is
  chained.
\<close>

theorem bounded_retry_attempts:
  "(mutex s = [t] \<and> executing s = [] \<and> promises s (handle t) = None \<and> attempts t = 0 \<longrightarrow>
     (\<forall>k \<le> maxAttempts t.
        promises (run (failing k err) s) (handle t) = None \<and>
        map snd (calls (run (failing k err) s)) =
          map snd (calls s) @ map (\<lambda>i. t\<lparr>attempts := i\<rparr>) [0..<k]) \<and>
     (let s' = run (failing (Suc (maxAttempts t)) err) s in
        map snd (calls s') = map snd (calls s) @ map (\<lambda>i. t\<lparr>attempts := i\<rparr>) [0..<Suc (maxAttempts t)] \<and>
        length (calls s') = length (calls s) + (maxAttempts t + 1) \<and>
        promises s' (handle t) = Some (Rejected (err (maxAttempts t))) \<and>
        executing s' = []) \<and>
     (0 < maxAttempts t \<longrightarrow>
       (let s' = run [MutexRun, ExecutorSettled (Rejected e), MutexRun, ExecutorSettled (Resolved v)] s in
          map snd (calls s') = map snd (calls s) @ [t, t\<lparr>attempts := 1\<rparr>] \<and>
          length (calls s') = length (calls s) + 2 \<and>
          promises s' (handle t) = Some (Resolved v) \<and>
          executing s' = []))) \<and>
   (let r = run es init in
      callsFor h r \<le> 4 \<and> failuresFor h r \<le> callsFor h r \<and>
      (\<forall>x. promises r h = Some (Rejected x) \<and> 0 < callsFor h r \<longrightarrow>
           callsFor h r = 4 \<and> failuresFor h r = 4) \<and>
      (\<forall>x. promises r h = Some (Resolved x) \<longrightarrow> callsFor h r = failuresFor h r + 1) \<and>
      (promises r h \<noteq> None \<longrightarrow>
         holders r h = 0 \<and>
         (\<forall>es'. callsFor h (run es' r) = callsFor h r \<and> promises (run es' r) h = promises r h)) \<and>
      (\<forall>u. executing r = [u] \<longrightarrow>
         maxAttempts u = 3 \<and> attempts u \<le> 3 \<and>
         callsFor (handle u) r = attempts u + 1 \<and> failuresFor (handle u) r = attempts u \<and>
         promises r (handle u) = None \<and>
         promises (executorSettled (Resolved v) r) (handle u) = Some (Resolved v) \<and>
         holders (executorSettled (Resolved v) r) (handle u) = 0 \<and>
         (attempts u = 3 \<longrightarrow>
            promises (executorSettled (Rejected e) r) (handle u) = Some (Rejected e) \<and>
            holders (executorSettled (Rejected e) r) (handle u) = 0) \<and>
         (attempts u < 3 \<longrightarrow>
            promises (executorSettled (Rejected e) r) (handle u) = None \<and>
            mutex (executorSettled (Rejected e) r) = [u\<lparr>attempts := Suc (attempts u)\<rparr>])))"
proof (rule conjI)
  show "mutex s = [t] \<and> executing s = [] \<and> promises s (handle t) = None \<and> attempts t = 0 \<longrightarrow>
     (\<forall>k \<le> maxAttempts t.
        promises (run (failing k err) s) (handle t) = None \<and>
        map snd (calls (run (failing k err) s)) =
          map snd (calls s) @ map (\<lambda>i. t\<lparr>attempts := i\<rparr>) [0..<k]) \<and>
     (let s' = run (failing (Suc (maxAttempts t)) err) s in
        map snd (calls s') = map snd (calls s) @ map (\<lambda>i. t\<lparr>attempts := i\<rparr>) [0..<Suc (maxAttempts t)] \<and>
        length (calls s') = length (calls s) + (maxAttempts t + 1) \<and>
        promises s' (handle t) = Some (Rejected (err (maxAttempts t))) \<and>
        executing s' = []) \<and>
     (0 < maxAttempts t \<longrightarrow>
       (let s' = run [MutexRun, ExecutorSettled (Rejected e), MutexRun, ExecutorSettled (Resolved v)] s in
          map snd (calls s') = map snd (calls s) @ [t, t\<lparr>attempts := 1\<rparr>] \<and>
          length (calls s') = length (calls s) + 2 \<and>
          promises s' (handle t) = Some (Resolved v) \<and>
          executing s' = []))"
    by (rule failing_schedule)
next
  define r where "r = run es init"
  have ri: "reach_inv r"
    unfolding r_def by (rule reach_inv_run [OF reach_inv_init])
  note bd = reach_bounds [OF ri, of h]
  have rej: "callsFor h r = 4 \<and> failuresFor h r = 4"
    if "promises r h = Some (Rejected x) \<and> 0 < callsFor h r" for x
    using reach_settled [OF ri, of h] that by (auto simp: finished_def)
  have res: "callsFor h r = failuresFor h r + 1" if "promises r h = Some (Resolved x)" for x
    using reach_settled [OF ri, of h] that by (auto simp: finished_def)
  have fin: "holders r h = 0 \<and>
         (\<forall>es'. callsFor h (run es' r) = callsFor h r \<and> promises (run es' r) h = promises r h)"
    if "promises r h \<noteq> None"
  proof -
    have "h < nextHandle r" "holders r h = 0"
      using reach_settled [OF ri that] by simp_all
    then show ?thesis
      using retired_run [of h r] by simp
  qed
  have exe: "maxAttempts u = 3 \<and> attempts u \<le> 3 \<and>
         callsFor (handle u) r = attempts u + 1 \<and> failuresFor (handle u) r = attempts u \<and>
         promises r (handle u) = None \<and>
         promises (executorSettled (Resolved v) r) (handle u) = Some (Resolved v) \<and>
         holders (executorSettled (Resolved v) r) (handle u) = 0 \<and>
         (attempts u = 3 \<longrightarrow>
            promises (executorSettled (Rejected e) r) (handle u) = Some (Rejected e) \<and>
            holders (executorSettled (Rejected e) r) (handle u) = 0) \<and>
         (attempts u < 3 \<longrightarrow>
            promises (executorSettled (Rejected e) r) (handle u) = None \<and>
            mutex (executorSettled (Rejected e) r) = [u\<lparr>attempts := Suc (attempts u)\<rparr>])"
    if ex: "executing r = [u]" for u
  proof -
    note f = reach_executing [OF ri ex]
    have m: "mutex r = []" and p: "promises r (handle u) = None"
      and q: "handle u \<notin> handle ` set (queue r)" and mx: "maxAttempts u = 3"
      using f by simp_all
    note st = settle_in_executor [OF ex m p q]
    show ?thesis
      using f st(1) [of v] st(2) [of v] st(3) [of e] st(4) [of e] mx by simp
  qed
  show "let r = run es init in
      callsFor h r \<le> 4 \<and> failuresFor h r \<le> callsFor h r \<and>
      (\<forall>x. promises r h = Some (Rejected x) \<and> 0 < callsFor h r \<longrightarrow>
           callsFor h r = 4 \<and> failuresFor h r = 4) \<and>
      (\<forall>x. promises r h = Some (Resolved x) \<longrightarrow> callsFor h r = failuresFor h r + 1) \<and>
      (promises r h \<noteq> None \<longrightarrow>
         holders r h = 0 \<and>
         (\<forall>es'. callsFor h (run es' r) = callsFor h r \<and> promises (run es' r) h = promises r h)) \<and>
      (\<forall>u. executing r = [u] \<longrightarrow>
         maxAttempts u = 3 \<and> attempts u \<le> 3 \<and>
         callsFor (handle u) r = attempts u + 1 \<and> failuresFor (handle u) r = attempts u \<and>
         promises r (handle u) = None \<and>
         promises (executorSettled (Resolved v) r) (handle u) = Some (Resolved v) \<and>
         holders (executorSettled (Resolved v) r) (handle u) = 0 \<and>
         (attempts u = 3 \<longrightarrow>
            promises (executorSettled (Rejected e) r) (handle u) = Some (Rejected e) \<and>
            holders (executorSettled (Rejected e) r) (handle u) = 0) \<and>
         (attempts u < 3 \<longrightarrow>
            promises (executorSettled (Rejected e) r) (handle u) = None \<and>
            mutex (executorSettled (Rejected e) r) = [u\<lparr>attempts := Suc (attempts u)\<rparr>]))"
    unfolding Let_def r_def [symmetric]
    using bd rej res fin exe by blast
qed

theorem bounded_retry_attempts_witness:
  "(let s = enqueue ''test_script'' [] init;
        t = \<lparr>payload = Script ''test_script'' [], handle = 0, attempts = 0, maxAttempts = 3\<rparr> in
      mutex s = [t] \<and> executing s = [] \<and> promises s (handle t) = None \<and> attempts t = 0 \<and>
      0 < maxAttempts t \<and> (3::nat) \<le> maxAttempts t \<and>
      promises (run (failing 3 (\<lambda>i. ''execution failed'')) s) 0 = None \<and>
      map snd (calls (run (failing (Suc 3) (\<lambda>i. ''execution failed'')) s)) =
        [t, t\<lparr>attempts := 1\<rparr>, t\<lparr>attempts := 2\<rparr>, t\<lparr>attempts := 3\<rparr>] \<and>
      length (calls (run (failing (Suc 3) (\<lambda>i. ''execution failed'')) s)) = 4 \<and>
      promises (run (failing (Suc 3) (\<lambda>i. ''execution failed'')) s) 0 = Some (Rejected ''execution failed'') \<and>
      map snd (calls (run [MutexRun, ExecutorSettled (Rejected ''execution failed''),
                           MutexRun, ExecutorSettled (Resolved ''OK'')] s)) = [t, t\<lparr>attempts := 1\<rparr>] \<and>
      promises (run [MutexRun, ExecutorSettled (Rejected ''execution failed''),
                     MutexRun, ExecutorSettled (Resolved ''OK'')] s) 0 = Some (Resolved ''OK'')) \<and>
   (let r = run (Enqueue ''test_script'' [] # failing (Suc 3) (\<lambda>i. ''execution failed'')) init in
      promises r 0 = Some (Rejected ''execution failed'') \<and> 0 < callsFor 0 r \<and>
      callsFor 0 r = 4 \<and> failuresFor 0 r = 4 \<and> holders r 0 = 0 \<and>
      callsFor 0 (run [Enqueue ''other'' [], MutexRun, ExecutorSettled (Rejected ''x''), MutexRun] r) = 4) \<and>
   (let r = run [Enqueue ''test_script'' [], MutexRun, ExecutorSettled (Rejected ''execution failed''),
                 MutexRun, ExecutorSettled (Resolved ''OK'')] init in
      promises r 0 = Some (Resolved ''OK'') \<and> callsFor 0 r = 2 \<and> failuresFor 0 r = 1) \<and>
   (let r = run [Enqueue ''test_script'' [], MutexRun] init;
        u = \<lparr>payload = Script ''test_script'' [], handle = 0, attempts = 0, maxAttempts = 3\<rparr> in
      executing r = [u] \<and> attempts u < 3 \<and> callsFor 0 r = 1 \<and>
      promises (executorSettled (Rejected ''boom'') r) 0 = None \<and>
      mutex (executorSettled (Rejected ''boom'') r) = [u\<lparr>attempts := 1\<rparr>]) \<and>
   (let r = run (Enqueue ''test_script'' [] # failing 3 (\<lambda>i. ''execution failed'') @ [MutexRun]) init;
        u = \<lparr>payload = Script ''test_script'' [], handle = 0, attempts = 3, maxAttempts = 3\<rparr> in
      executing r = [u] \<and> attempts u = 3 \<and> callsFor 0 r = 4 \<and>
      promises (executorSettled (Rejected ''boom'') r) 0 = Some (Rejected ''boom''))"
proof -
  define s where "s = enqueue ''test_script'' [] init"
  define t where "t = \<lparr>payload = Script ''test_script'' [], handle = 0, attempts = 0, maxAttempts = 3\<rparr>"
  define err :: "nat \<Rightarrow> string" where "err = (\<lambda>i. ''execution failed'')"
  have h: "mutex s = [t] \<and> executing s = [] \<and> promises s (handle t) = None \<and> attempts t = 0"
    by (simp add: s_def t_def enqueue_on_init)
  have c: "calls s = []"
    by (simp add: s_def enqueue_on_init)
  have m: "maxAttempts t = 3" "handle t = 0" "err 3 = ''execution failed''" "t\<lparr>attempts := 0\<rparr> = t"
    by (simp_all add: t_def err_def)
  have up: "[0..<Suc 3] = [0, 1, 2, 3]"
    by (simp add: upt_rec)
  note inst = bounded_retry_attempts [of s t err "''execution failed''" "''OK''",
      THEN conjunct1, THEN mp, OF h, unfolded m Let_def c up append_Nil list.map]
  have a: "promises (run (failing 3 err) s) 0 = None"
    using inst [THEN conjunct1, rule_format, of 3] by simp
  note b = inst [THEN conjunct2, THEN conjunct1]
  have d: "map snd (calls (run [MutexRun, ExecutorSettled (Rejected ''execution failed''),
                           MutexRun, ExecutorSettled (Resolved ''OK'')] s)) = [t, t\<lparr>attempts := 1\<rparr>] \<and>
      promises (run [MutexRun, ExecutorSettled (Rejected ''execution failed''),
                     MutexRun, ExecutorSettled (Resolved ''OK'')] s) 0 = Some (Resolved ''OK'')"
    using inst [THEN conjunct2, THEN conjunct2] by simp
  have part1: "mutex s = [t] \<and> executing s = [] \<and> promises s (handle t) = None \<and> attempts t = 0 \<and>
      0 < maxAttempts t \<and> (3::nat) \<le> maxAttempts t \<and>
      promises (run (failing 3 err) s) 0 = None \<and>
      map snd (calls (run (failing (Suc 3) err) s)) =
        [t, t\<lparr>attempts := 1\<rparr>, t\<lparr>attempts := 2\<rparr>, t\<lparr>attempts := 3\<rparr>] \<and>
      length (calls (run (failing (Suc 3) err) s)) = 4 \<and>
      promises (run (failing (Suc 3) err) s) 0 = Some (Rejected ''execution failed'') \<and>
      map snd (calls (run [MutexRun, ExecutorSettled (Rejected ''execution failed''),
                           MutexRun, ExecutorSettled (Resolved ''OK'')] s)) = [t, t\<lparr>attempts := 1\<rparr>] \<and>
      promises (run [MutexRun, ExecutorSettled (Rejected ''execution failed''),
                     MutexRun, ExecutorSettled (Resolved ''OK'')] s) 0 = Some (Resolved ''OK'')"
    using h a b d m(1) by simp
  have cf: "callsFor 0 x = length (filter (\<lambda>u. handle u = 0) (map snd (calls x)))" for x
    by (simp add: callsFor_def filter_map comp_def)
  define r4 where "r4 = run (failing (Suc 3) err) s"
  have r4: "run (Enqueue ''test_script'' [] # failing (Suc 3) err) init = r4"
    by (simp add: r4_def s_def)
  have p4: "promises r4 0 = Some (Rejected ''execution failed'')" and c4: "callsFor 0 r4 = 4"
    using b by (simp_all add: r4_def cf t_def)
  note g4 = bounded_retry_attempts [of _ _ _ "''boom''" "''OK''"
      "Enqueue ''test_script'' [] # failing (Suc 3) err" 0, THEN conjunct2, unfolded Let_def r4]
  have part2: "promises r4 0 = Some (Rejected ''execution failed'') \<and> 0 < callsFor 0 r4 \<and>
      callsFor 0 r4 = 4 \<and> failuresFor 0 r4 = 4 \<and> holders r4 0 = 0 \<and>
      callsFor 0 (run [Enqueue ''other'' [], MutexRun, ExecutorSettled (Rejected ''x''), MutexRun] r4) = 4"
    using g4 p4 c4 by (simp del: run_Cons run_Nil)
  define r2 where "r2 = run [MutexRun, ExecutorSettled (Rejected ''execution failed''),
                     MutexRun, ExecutorSettled (Resolved ''OK'')] s"
  have r2: "run [Enqueue ''test_script'' [], MutexRun, ExecutorSettled (Rejected ''execution failed''),
                 MutexRun, ExecutorSettled (Resolved ''OK'')] init = r2"
    by (simp add: r2_def s_def)
  have p2: "promises r2 0 = Some (Resolved ''OK'')" and c2: "callsFor 0 r2 = 2"
    using d by (simp_all add: r2_def cf t_def del: run_Cons run_Nil)
  note g2 = bounded_retry_attempts [of _ _ _ "''boom''" "''OK''"
      "[Enqueue ''test_script'' [], MutexRun, ExecutorSettled (Rejected ''execution failed''),
                 MutexRun, ExecutorSettled (Resolved ''OK'')]" 0, THEN conjunct2, unfolded Let_def r2]
  have part3: "promises r2 0 = Some (Resolved ''OK'') \<and> callsFor 0 r2 = 2 \<and> failuresFor 0 r2 = 1"
    using g2 p2 c2 by simp
  define r1 where "r1 = mutexRun s"
  have r1: "run [Enqueue ''test_script'' [], MutexRun] init = r1"
    by (simp add: r1_def s_def)
  have e1: "executing r1 = [t]"
    using h by (simp add: r1_def mutexRun_def)
  note g1 = bounded_retry_attempts [of _ _ _ "''boom''" "''OK''"
      "[Enqueue ''test_script'' [], MutexRun]" 0, THEN conjunct2, unfolded Let_def r1,
      THEN conjunct2, THEN conjunct2, THEN conjunct2, THEN conjunct2, THEN conjunct2,
      rule_format, OF e1, unfolded m]
  have part4: "executing r1 = [t] \<and> attempts t < 3 \<and> callsFor 0 r1 = 1 \<and>
      promises (executorSettled (Rejected ''boom'') r1) 0 = None \<and>
      mutex (executorSettled (Rejected ''boom'') r1) = [t\<lparr>attempts := 1\<rparr>]"
    using g1 e1 h by simp
  define r3 where "r3 = mutexRun (run (failing 3 err) s)"
  define t3 where "t3 = \<lparr>payload = Script ''test_script'' [], handle = 0, attempts = 3, maxAttempts = 3\<rparr>"
  have r3: "run (Enqueue ''test_script'' [] # failing 3 err @ [MutexRun]) init = r3"
    by (simp add: r3_def s_def run_append)
  have le: "attempts t + 3 \<le> maxAttempts t"
    by (simp add: t_def)
  have e3: "executing r3 = [t3]"
    using h failing_rounds [of s t 3 err, OF _ _ le]
    by (simp add: r3_def mutexRun_def t_def t3_def)
  have m3: "handle t3 = 0" "attempts t3 = 3"
    by (simp_all add: t3_def)
  note g3 = bounded_retry_attempts [of _ _ _ "''boom''" "''OK''"
      "Enqueue ''test_script'' [] # failing 3 err @ [MutexRun]" 0, THEN conjunct2, unfolded Let_def r3,
      THEN conjunct2, THEN conjunct2, THEN conjunct2, THEN conjunct2, THEN conjunct2,
      rule_format, OF e3, unfolded m3]
  have part5: "executing r3 = [t3] \<and> attempts t3 = 3 \<and> callsFor 0 r3 = 4 \<and>
      promises (executorSettled (Rejected ''boom'') r3) 0 = Some (Rejected ''boom'')"
    using g3 e3 m3 by simp
  show ?thesis
    unfolding Let_def
    using part1 [unfolded s_def t_def err_def]
      part2 [unfolded r4 [symmetric], unfolded err_def]
      part3 [unfolded r2 [symmetric]]
      part4 [unfolded r1 [symmetric], unfolded t_def]
      part5 [unfolded r3 [symmetric], unfolded t3_def err_def]
    by (intro conjI) (simp_all only: simp_thms)
qed

text \<open>
  Claim C2 as stated fails: with the \<open>maxAttempts: 3\<close> of \<open>enqueue\<close> and an executor
  that always fails, the promise is still unsettled after 3 calls, and it is
  rejected after the 4th.
\<close>

theorem maxAttempts_counterexample:
  "length (calls (run [Enqueue ''test_script'' [],
       MutexRun, ExecutorSettled (Rejected ''execution failed''),
       MutexRun, ExecutorSettled (Rejected ''execution failed''),
       MutexRun, ExecutorSettled (Rejected ''execution failed''),
       MutexRun, ExecutorSettled (Rejected ''execution failed'')] init)) = 4 \<and>
   map (maxAttempts \<circ> snd) (calls (run [Enqueue ''test_script'' [],
       MutexRun, ExecutorSettled (Rejected ''execution failed''),
       MutexRun, ExecutorSettled (Rejected ''execution failed''),
       MutexRun, ExecutorSettled (Rejected ''execution failed''),
       MutexRun, ExecutorSettled (Rejected ''execution failed'')] init)) = [3, 3, 3, 3] \<and>
   promises (run [Enqueue ''test_script'' [],
       MutexRun, ExecutorSettled (Rejected ''execution failed''),
       MutexRun, ExecutorSettled (Rejected ''execution failed''),
       MutexRun, ExecutorSettled (Rejected ''execution failed'')] init) 0 = None \<and>
   promises (run [Enqueue ''test_script'' [],
       MutexRun, ExecutorSettled (Rejected ''execution failed''),
       MutexRun, ExecutorSettled (Rejected ''execution failed''),
       MutexRun, ExecutorSettled (Rejected ''execution failed''),
       MutexRun, ExecutorSettled (Rejected ''execution failed'')] init) 0 =
     Some (Rejected ''execution failed'')"
proof -
  define s where "s = enqueue ''test_script'' [] init"
  define t where "t = \<lparr>payload = Script ''test_script'' [], handle = 0, attempts = 0, maxAttempts = 3\<rparr>"
  define err :: "nat \<Rightarrow> string" where "err = (\<lambda>i. ''execution failed'')"
  define s3 where "s3 = run (failing 3 err) s"
  have h: "mutex s = [t]" "executing s = []" "promises s 0 = None" "calls s = []" "now s = 0"
    by (simp_all add: s_def t_def enqueue_on_init)
  have le: "attempts t + 3 \<le> maxAttempts t"
    by (simp add: t_def)
  have up: "[0..<3] = [0, 1, 2]"
    by (simp add: upt_rec eval_nat_numeral)
  note r3 = failing_rounds [OF h(1,2) le, of err, folded s3_def, unfolded up]
  have s3: "mutex s3 = [t\<lparr>attempts := 3\<rparr>]" "executing s3 = []"
    "promises s3 (handle (t\<lparr>attempts := 3\<rparr>)) = None"
    "map (maxAttempts \<circ> snd) (calls s3) = [3, 3, 3]" "promises s3 0 = None"
    using h by (simp_all add: r3 t_def)
  have mx: "maxAttempts (t\<lparr>attempts := 3\<rparr>) \<le> attempts (t\<lparr>attempts := 3\<rparr>)"
    "handle (t\<lparr>attempts := 3\<rparr>) = 0" "maxAttempts (t\<lparr>attempts := 3\<rparr>) = 3"
    by (simp_all add: t_def)
  note l4 = last_failed_attempt [OF s3(1,2) mx(1) s3(3), of "''execution failed''", unfolded mx(2)]
  have e3: "run [Enqueue ''test_script'' [],
       MutexRun, ExecutorSettled (Rejected ''execution failed''),
       MutexRun, ExecutorSettled (Rejected ''execution failed''),
       MutexRun, ExecutorSettled (Rejected ''execution failed'')] init = s3"
    by (simp add: s3_def s_def err_def eval_nat_numeral)
  have e4: "run [Enqueue ''test_script'' [],
       MutexRun, ExecutorSettled (Rejected ''execution failed''),
       MutexRun, ExecutorSettled (Rejected ''execution failed''),
       MutexRun, ExecutorSettled (Rejected ''execution failed''),
       MutexRun, ExecutorSettled (Rejected ''execution failed'')] init =
     run [MutexRun, ExecutorSettled (Rejected ''execution failed'')] s3"
    by (simp add: s3_def s_def err_def eval_nat_numeral)
  have c4: "map (maxAttempts \<circ> snd) (calls (run [MutexRun, ExecutorSettled (Rejected ''execution failed'')] s3)) =
      [3, 3, 3, 3]"
    using l4 s3(4) mx(3) by simp
  have n4: "length (calls (run [MutexRun, ExecutorSettled (Rejected ''execution failed'')] s3)) = 4"
    using arg_cong [OF c4, of length] by simp
  show ?thesis
    unfolding e3 e4 using c4 n4 s3(5) l4 by blast
qed

text \<open>
  Claim C3, as amended. The queue has no backoff: when an attempt of A fails and A
  has attempts left, the clock is where it was, A's retry is chained on \<open>mutex\<close> and
  can start at the time of the failure. Until that callback starts, whatever is
  enqueued or cleared and however much time passes, no task begins execution, and
  the callback that starts is A's retry.
\<close>

theorem retry_without_backoff:
  "(let s = run es0 init in
      executing s = [A] \<and> attempts A < maxAttempts A \<longrightarrow>
      (let s1 = executorSettled (Rejected e) s; A' = A\<lparr>attempts := Suc (attempts A)\<rparr> in
         failures s1 = failures s @ [(now s, A)] \<and> now s1 = now s \<and>
         calls (mutexRun s1) = calls s @ [(now s, A')] \<and>
         (\<forall>es. MutexRun \<notin> set es \<longrightarrow>
               calls (run es s1) = calls s \<and> executing (run es s1) = [] \<and>
               calls (mutexRun (run es s1)) = calls s @ [(now (run es s1), A')])))"
proof -
  define s where "s = run es0 init"
  have winv: "worker_inv s"
    unfolding s_def by (rule worker_inv_run [OF worker_inv_init])
  {
    assume ex: "executing s = [A]" and lt: "attempts A < maxAttempts A"
    have m: "mutex s = []"
      using winv ex by (simp add: worker_inv_def split: if_splits)
    note eq = failed_attempt_retry [OF ex m lt, of e]
    define s1 where "s1 = executorSettled (Rejected e) s"
    have f: "mutex s1 = [A\<lparr>attempts := Suc (attempts A)\<rparr>]"
      "executing s1 = []" "processing s1" "calls s1 = calls s"
      "failures s1 = failures s @ [(now s, A)]" "now s1 = now s"
      by (simp_all add: s1_def eq)
    have now: "calls (mutexRun s1) = calls s @ [(now s, A\<lparr>attempts := Suc (attempts A)\<rparr>)]"
      by (simp add: mutexRun_def f)
    have later: "calls (run es s1) = calls s \<and> executing (run es s1) = [] \<and>
        calls (mutexRun (run es s1)) = calls s @ [(now (run es s1), A\<lparr>attempts := Suc (attempts A)\<rparr>)]"
      if "MutexRun \<notin> set es" for es
      using waiting_retry_run [OF f(3) f(1) f(2) that]
      by (simp add: mutexRun_def f(4))
    have "failures s1 = failures s @ [(now s, A)] \<and> now s1 = now s \<and>
         calls (mutexRun s1) = calls s @ [(now s, A\<lparr>attempts := Suc (attempts A)\<rparr>)] \<and>
         (\<forall>es. MutexRun \<notin> set es \<longrightarrow>
               calls (run es s1) = calls s \<and> executing (run es s1) = [] \<and>
               calls (mutexRun (run es s1)) = calls s @ [(now (run es s1), A\<lparr>attempts := Suc (attempts A)\<rparr>)])"
      using f(5,6) now later by blast
    note this [unfolded s1_def]
  }
  then show ?thesis
    unfolding Let_def s_def [symmetric] by blast
qed

theorem retry_without_backoff_witness:
  "(let s = run [Enqueue ''send_text'' [], Enqueue ''send_media'' [], MutexRun] init;
        A = \<lparr>payload = Script ''send_text'' [], handle = 0, attempts = 0, maxAttempts = 3\<rparr>;
        s1 = executorSettled (Rejected ''boom'') s;
        es = [Enqueue ''other'' [], Elapse 250, ClearQueue ''reset''] in
      executing s = [A] \<and> attempts A < maxAttempts A \<and>
      failures s1 = [(0, A)] \<and>
      calls (mutexRun s1) = [(0, A), (0, A\<lparr>attempts := 1\<rparr>)] \<and>
      MutexRun \<notin> set es \<and> calls (run es s1) = [(0, A)] \<and>
      calls (mutexRun (run es s1)) = [(0, A), (250, A\<lparr>attempts := 1\<rparr>)])"
  using retry_without_backoff [of "[Enqueue ''send_text'' [], Enqueue ''send_media'' [], MutexRun]"
      "\<lparr>payload = Script ''send_text'' [], handle = 0, attempts = 0, maxAttempts = 3\<rparr>" "''boom''"]
  by (simp add: init_def queue_defs settle_def)

text \<open>
  Claim C3 as stated fails: the first attempt fails at time 0 and the retry starts
  at time 0, not 1000 ms later.
\<close>

theorem backoff_delay_counterexample:
  "failures (run [Enqueue ''send_text'' [], MutexRun, ExecutorSettled (Rejected ''boom''), MutexRun] init) =
     [(0, \<lparr>payload = Script ''send_text'' [], handle = 0, attempts = 0, maxAttempts = 3\<rparr>)] \<and>
   calls (run [Enqueue ''send_text'' [], MutexRun, ExecutorSettled (Rejected ''boom''), MutexRun] init) =
     [(0, \<lparr>payload = Script ''send_text'' [], handle = 0, attempts = 0, maxAttempts = 3\<rparr>),
      (0, \<lparr>payload = Script ''send_text'' [], handle = 0, attempts = 1, maxAttempts = 3\<rparr>)] \<and>
   spec_backoff_delay 1000 1 = 1000 \<and>
   fst (calls (run [Enqueue ''send_text'' [], MutexRun, ExecutorSettled (Rejected ''boom''), MutexRun] init) ! 1)
     - fst (failures (run [Enqueue ''send_text'' [], MutexRun, ExecutorSettled (Rejected ''boom''), MutexRun] init) ! 0)
     \<noteq> spec_backoff_delay 1000 1"
  by (simp add: init_def queue_defs settle_def spec_backoff_delay_def)

section \<open>Properties of the Realtime manager\<close>

lemmas manager_defs = initialize_def setupRealtimeSubscription_def pollPendingMessages_def
  pollBegin_def pollResume_def startPolling_def stopPolling_def onStatus_def onInsert_def
  shutdown_def tick_def setIntervalFunc_def clearIntervalFunc_def timerRunning_def Let_def

lemma mrun_Nil [simp]: "mrun [] s = s"
  by (simp add: mrun_def)

lemma mrun_Cons [simp]: "mrun (e # es) s = mrun es (mstep e s)"
  by (simp add: mrun_def)

lemma mrun_append: "mrun (es @ fs) s = mrun fs (mrun es s)"
  by (simp add: mrun_def)

lemma poll_frame [simp]:
  "isPolling (pollPendingMessages t res s) = isPolling s"
  "isRealtimeConnected (pollPendingMessages t res s) = isRealtimeConnected s"
  "pollingInterval (pollPendingMessages t res s) = pollingInterval s"
  "timers (pollPendingMessages t res s) = timers s"
  "subscription (pollPendingMessages t res s) = subscription s"
  "openChannels (pollPendingMessages t res s) = openChannels s"
  "messageHandler (pollPendingMessages t res s) = messageHandler s"
  "pollingFrequency (pollPendingMessages t res s) = pollingFrequency s"
  by (simp_all add: pollPendingMessages_def pollBegin_def pollResume_def
        split: query_result.splits option.splits prod.splits)

lemma poll_lastPollTime [simp]: "lastPollTime (pollPendingMessages t res s) = Some t"
  by (simp add: pollPendingMessages_def pollBegin_def pollResume_def
        split: query_result.splits option.splits prod.splits)


lemma startPolling_frame [simp]:
  "isRealtimeConnected (startPolling s) = isRealtimeConnected s"
  "delivered (startPolling s) = delivered s"
  by (simp_all add: startPolling_def setIntervalFunc_def clearIntervalFunc_def Let_def
        split: option.splits)


lemma stopPolling_frame [simp]:
  "isRealtimeConnected (stopPolling s) = isRealtimeConnected s"
  "delivered (stopPolling s) = delivered s"
  by (simp_all add: stopPolling_def clearIntervalFunc_def Let_def split: option.splits)










lemma startPolling_isPolling [simp]: "isPolling (startPolling s)"
  by (simp add: startPolling_def setIntervalFunc_def clearIntervalFunc_def Let_def
        split: option.splits)

lemma stopPolling_not_polling [simp]: "\<not> isPolling (stopPolling s)"
  by (simp add: stopPolling_def Let_def)







lemma deliverAll_accepts:
  "\<forall>m \<in> set ms. h m = None \<Longrightarrow> deliverAll h ms log = (None, log @ ms)"
  by (induction ms arbitrary: log) simp_all

lemma deliverAll_stops:
  "\<forall>m \<in> set xs. h m = None \<Longrightarrow> h k = Some e \<Longrightarrow>
     deliverAll h (xs @ k # ys) log = (Some e, log @ xs @ [k])"
  by (induction xs arbitrary: log) simp_all

lemma set_selectPending: "set (selectPending table) = {m \<in> set table. status m = ''pending''}"
  by (simp add: selectPending_def)

lemma sorted_selectPending: "sorted (map created_at (selectPending table))"
  by (simp add: selectPending_def)

lemma count_list_insort: "count_list (insort_key f x xs) m = count_list (x # xs) m"
  by (induction xs) auto

lemma count_list_sort: "count_list (sort_key f xs) m = count_list xs m"
  by (induction xs) (simp_all add: count_list_insort)

lemma count_list_filter: "count_list (filter P xs) m = (if P m then count_list xs m else 0)"
  by (induction xs) auto

lemma count_selectPending:
  "count_list (selectPending table) m = (if status m = ''pending'' then count_list table m else 0)"
  by (simp add: selectPending_def count_list_sort count_list_filter)

lemma count_list_append: "count_list (xs @ ys) m = count_list xs m + count_list ys m"
  by (induction xs) auto

lemma poll_accepting:
  "messageHandler s = Some h \<Longrightarrow> \<forall>m \<in> set (selectPending table). h m = None \<Longrightarrow>
     pollPendingMessages t (Rows table) s =
       s\<lparr>lastPollTime := Some t, delivered := delivered s @ selectPending table\<rparr>"
  by (simp add: pollPendingMessages_def pollBegin_def pollResume_def deliverAll_accepts)

lemma poll_failing:
  "messageHandler s = Some h \<Longrightarrow> selectPending table = xs @ k # ys \<Longrightarrow>
     \<forall>m \<in> set xs. h m = None \<Longrightarrow> h k = Some e \<Longrightarrow>
     pollPendingMessages t (Rows table) s =
       s\<lparr>lastPollTime := Some t, delivered := delivered s @ xs @ [k],
         errorLog := errorLog s @ [(''Error polling for pending messages'', e)]\<rparr>"
  by (simp add: pollPendingMessages_def pollBegin_def pollResume_def deliverAll_stops)

text \<open>
  Claim C4, as amended. A poll cycle stores its start time in \<open>lastPollTime\<close> in
  its first job, before the query and before any call of the consumer, and the
  time is stored whatever the query answers. The query has no lower bound: it
  selects every row whose status is \<open>pending\<close>, oldest first, and what is delivered
  does not depend on the \<open>lastPollTime\<close> of the state. With a consumer that accepts
  every item, a recurring tick and the pull of \<open>initialize\<close> alike deliver all the
  pending rows in that order.
\<close>

theorem poll_queries_all_pending:
  "lastPollTime (pollBegin t s) = Some t \<and> delivered (pollBegin t s) = delivered s \<and>
   pollPendingMessages t res s = pollResume res (pollBegin t s) \<and>
   lastPollTime (pollPendingMessages t res s) = Some t \<and>
   delivered (pollPendingMessages t res (s\<lparr>lastPollTime := w\<rparr>)) = delivered (pollPendingMessages t res s) \<and>
   set (selectPending table) = {m \<in> set table. status m = ''pending''} \<and>
   sorted (map created_at (selectPending table)) \<and>
   (messageHandler s = Some h \<and> (\<forall>m \<in> set (selectPending table). h m = None) \<longrightarrow>
      delivered (pollPendingMessages t (Rows table) s) = delivered s @ selectPending table \<and>
      (timers s \<noteq> [] \<longrightarrow>
         delivered (tick t (Rows table) s) = delivered s @ selectPending table \<and>
         lastPollTime (tick t (Rows table) s) = Some t) \<and>
      (\<exists>s'. initialize (Some h) SetupOk t (Rows table) s = Inr s' \<and>
         delivered s' = delivered s @ selectPending table \<and> lastPollTime s' = Some t))"
proof -
  have c1: "lastPollTime (pollBegin t s) = Some t \<and> delivered (pollBegin t s) = delivered s"
    by (simp add: pollBegin_def)
  have c2: "pollPendingMessages t res s = pollResume res (pollBegin t s)"
    by (simp add: pollPendingMessages_def)
  have c3: "lastPollTime (pollPendingMessages t res s) = Some t"
    by simp
  have c4: "delivered (pollPendingMessages t res (s\<lparr>lastPollTime := w\<rparr>)) =
      delivered (pollPendingMessages t res s)"
    by (simp add: pollPendingMessages_def pollBegin_def)
  have c6: "delivered (pollPendingMessages t (Rows table) s) = delivered s @ selectPending table \<and>
      (timers s \<noteq> [] \<longrightarrow>
         delivered (tick t (Rows table) s) = delivered s @ selectPending table \<and>
         lastPollTime (tick t (Rows table) s) = Some t) \<and>
      (\<exists>s'. initialize (Some h) SetupOk t (Rows table) s = Inr s' \<and>
         delivered s' = delivered s @ selectPending table \<and> lastPollTime s' = Some t)"
    if hyp: "messageHandler s = Some h \<and> (\<forall>m \<in> set (selectPending table). h m = None)"
  proof -
    from hyp have mh: "messageHandler s = Some h"
      and acc: "\<forall>m \<in> set (selectPending table). h m = None"
      by simp_all
    have p: "delivered (pollPendingMessages t (Rows table) s) = delivered s @ selectPending table"
      by (simp add: poll_accepting [OF mh acc])
    have tk: "timers s \<noteq> [] \<longrightarrow>
         delivered (tick t (Rows table) s) = delivered s @ selectPending table \<and>
         lastPollTime (tick t (Rows table) s) = Some t"
      by (simp add: tick_def p)
    have ini: "\<exists>s'. initialize (Some h) SetupOk t (Rows table) s = Inr s' \<and>
         delivered s' = delivered s @ selectPending table \<and> lastPollTime s' = Some t"
      using acc
      by (simp add: initialize_def setupRealtimeSubscription_def Let_def poll_accepting)
    show ?thesis
      using p tk ini by (intro conjI)
  qed
  show ?thesis
    using c1 c2 c3 c4 set_selectPending [of table] sorted_selectPending [of table] c6
    by (intro conjI impI) simp_all
qed


theorem poll_queries_all_pending_witness:
  "(let s = mrun [Initialize (Some acceptAll) SetupOk 100 (Rows []), Status ''CHANNEL_ERROR''] minit;
        m1 = \<lparr>msg_id = ''m1'', created_at = 50, status = ''pending''\<rparr>;
        m2 = \<lparr>msg_id = ''m2'', created_at = 70, status = ''pending''\<rparr>;
        m3 = \<lparr>msg_id = ''m3'', created_at = 60, status = ''sent''\<rparr>;
        table = [m2, m1, m3] in
      messageHandler s = Some acceptAll \<and> (\<forall>m \<in> set (selectPending table). acceptAll m = None) \<and>
      timers s \<noteq> [] \<and> lastPollTime s = Some 100 \<and>
      selectPending table = [m1, m2] \<and>
      delivered (tick 200 (Rows table) s) = [m1, m2] \<and>
      lastPollTime (tick 200 (Rows table) s) = Some 200)"
  using poll_queries_all_pending [of 200 "mrun [Initialize (Some acceptAll) SetupOk 100 (Rows []), Status ''CHANNEL_ERROR''] minit"
      "Rows []" "Some 0"
      "[\<lparr>msg_id = ''m2'', created_at = 70, status = ''pending''\<rparr>,
        \<lparr>msg_id = ''m1'', created_at = 50, status = ''pending''\<rparr>,
        \<lparr>msg_id = ''m3'', created_at = 60, status = ''sent''\<rparr>]" acceptAll]
  by (simp add: minit_def manager_defs selectPending_def acceptAll_def)

text \<open>
  Claim C4 as stated fails: a row created at 50 that is still pending is queried
  and delivered again by the tick at 200, although \<open>lastPollTime\<close> was 100; and a
  tick whose query fails still moves \<open>lastPollTime\<close> to 200.
\<close>

theorem watermark_counterexample:
  "lastPollTime (mrun [Initialize (Some acceptAll) SetupOk 100
        (Rows [\<lparr>msg_id = ''m1'', created_at = 50, status = ''pending''\<rparr>]),
      Status ''CHANNEL_ERROR''] minit) = Some 100 \<and>
   created_at \<lparr>msg_id = ''m1'', created_at = 50, status = ''pending''\<rparr> < 100 \<and>
   delivered (mrun [Initialize (Some acceptAll) SetupOk 100
        (Rows [\<lparr>msg_id = ''m1'', created_at = 50, status = ''pending''\<rparr>]),
      Status ''CHANNEL_ERROR'',
      Tick 200 (Rows [\<lparr>msg_id = ''m1'', created_at = 50, status = ''pending''\<rparr>])] minit) =
     [\<lparr>msg_id = ''m1'', created_at = 50, status = ''pending''\<rparr>,
      \<lparr>msg_id = ''m1'', created_at = 50, status = ''pending''\<rparr>] \<and>
   lastPollTime (mrun [Initialize (Some acceptAll) SetupOk 100
        (Rows [\<lparr>msg_id = ''m1'', created_at = 50, status = ''pending''\<rparr>]),
      Status ''CHANNEL_ERROR'',
      Tick 200 (QueryError ''timeout'')] minit) = Some 200"
  by (simp add: minit_def manager_defs selectPending_def acceptAll_def)

text \<open>
  Claim C5, as amended. In a pull batch \<open>xs @ k # ys\<close> where the consumer accepts
  the items \<open>xs\<close> and fails on \<open>k\<close>: the consumer is called for \<open>xs\<close> and \<open>k\<close> and for
  none of \<open>ys\<close>; the error is logged and the poll returns normally; the flags, the
  interval handle, the intervals and hence the poll timer are as before, and so is
  the subscription.
\<close>

theorem poll_batch_stops_at_failure:
  "messageHandler s = Some h \<and> selectPending table = xs @ k # ys \<and>
   (\<forall>m \<in> set xs. h m = None) \<and> h k = Some e \<longrightarrow>
     (let s' = pollPendingMessages t (Rows table) s in
        delivered s' = delivered s @ xs @ [k] \<and>
        errorLog s' = errorLog s @ [(''Error polling for pending messages'', e)] \<and>
        isPolling s' = isPolling s \<and> isRealtimeConnected s' = isRealtimeConnected s \<and>
        pollingInterval s' = pollingInterval s \<and> timers s' = timers s \<and>
        timerRunning s' = timerRunning s \<and> subscription s' = subscription s \<and>
        (timers s \<noteq> [] \<longrightarrow> tick t (Rows table) s = s'))"
proof
  assume hyp: "messageHandler s = Some h \<and> selectPending table = xs @ k # ys \<and>
   (\<forall>m \<in> set xs. h m = None) \<and> h k = Some e"
  then have eq: "pollPendingMessages t (Rows table) s =
       s\<lparr>lastPollTime := Some t, delivered := delivered s @ xs @ [k],
         errorLog := errorLog s @ [(''Error polling for pending messages'', e)]\<rparr>"
    using poll_failing [of s h table xs k ys e t] by blast
  show "let s' = pollPendingMessages t (Rows table) s in
        delivered s' = delivered s @ xs @ [k] \<and>
        errorLog s' = errorLog s @ [(''Error polling for pending messages'', e)] \<and>
        isPolling s' = isPolling s \<and> isRealtimeConnected s' = isRealtimeConnected s \<and>
        pollingInterval s' = pollingInterval s \<and> timers s' = timers s \<and>
        timerRunning s' = timerRunning s \<and> subscription s' = subscription s \<and>
        (timers s \<noteq> [] \<longrightarrow> tick t (Rows table) s = s')"
    unfolding Let_def eq tick_def
    by (simp add: timerRunning_def eq split: option.splits)
qed

theorem poll_batch_stops_at_failure_witness:
  "(let s = mrun [Initialize (Some (failOn ''m2'')) SetupOk 0 (Rows []), Status ''CHANNEL_ERROR''] minit;
        m1 = \<lparr>msg_id = ''m1'', created_at = 10, status = ''pending''\<rparr>;
        m2 = \<lparr>msg_id = ''m2'', created_at = 20, status = ''pending''\<rparr>;
        m3 = \<lparr>msg_id = ''m3'', created_at = 30, status = ''pending''\<rparr>;
        s' = pollPendingMessages 5000 (Rows [m3, m2, m1]) s in
      messageHandler s = Some (failOn ''m2'') \<and> selectPending [m3, m2, m1] = [m1] @ m2 # [m3] \<and>
      (\<forall>m \<in> set [m1]. failOn ''m2'' m = None) \<and> failOn ''m2'' m2 = Some ''handler failed'' \<and>
      timers s \<noteq> [] \<and>
      delivered s' = [m1, m2] \<and>
      errorLog s' = [(''Realtime subscription error'', []),
                     (''Error polling for pending messages'', ''handler failed'')] \<and>
      timerRunning s' \<and> isPolling s' \<and> tick 5000 (Rows [m3, m2, m1]) s = s')"
  using poll_batch_stops_at_failure [of "mrun [Initialize (Some (failOn ''m2'')) SetupOk 0 (Rows []), Status ''CHANNEL_ERROR''] minit"
      "failOn ''m2''"
      "[\<lparr>msg_id = ''m3'', created_at = 30, status = ''pending''\<rparr>,
        \<lparr>msg_id = ''m2'', created_at = 20, status = ''pending''\<rparr>,
        \<lparr>msg_id = ''m1'', created_at = 10, status = ''pending''\<rparr>]"
      "[\<lparr>msg_id = ''m1'', created_at = 10, status = ''pending''\<rparr>]"
      "\<lparr>msg_id = ''m2'', created_at = 20, status = ''pending''\<rparr>"
      "[\<lparr>msg_id = ''m3'', created_at = 30, status = ''pending''\<rparr>]"
      "''handler failed''" 5000]
  by (simp add: minit_def manager_defs selectPending_def failOn_def)

text \<open>
  Claim C5 as stated fails: in the batch \<open>m1, m2\<close> with a consumer that fails on
  \<open>m1\<close>, the consumer is never called for \<open>m2\<close>.
\<close>

theorem per_item_catch_counterexample:
  "selectPending [\<lparr>msg_id = ''m1'', created_at = 10, status = ''pending''\<rparr>,
                  \<lparr>msg_id = ''m2'', created_at = 20, status = ''pending''\<rparr>] =
     [\<lparr>msg_id = ''m1'', created_at = 10, status = ''pending''\<rparr>,
      \<lparr>msg_id = ''m2'', created_at = 20, status = ''pending''\<rparr>] \<and>
   failOn ''m1'' \<lparr>msg_id = ''m1'', created_at = 10, status = ''pending''\<rparr> = Some ''handler failed'' \<and>
   delivered (mrun [Initialize (Some (failOn ''m1'')) SetupOk 0 (Rows []), Status ''CHANNEL_ERROR'',
      Tick 5000 (Rows [\<lparr>msg_id = ''m1'', created_at = 10, status = ''pending''\<rparr>,
                       \<lparr>msg_id = ''m2'', created_at = 20, status = ''pending''\<rparr>])] minit) =
     [\<lparr>msg_id = ''m1'', created_at = 10, status = ''pending''\<rparr>] \<and>
   \<lparr>msg_id = ''m2'', created_at = 20, status = ''pending''\<rparr> \<notin>
     set (delivered (mrun [Initialize (Some (failOn ''m1'')) SetupOk 0 (Rows []), Status ''CHANNEL_ERROR'',
      Tick 5000 (Rows [\<lparr>msg_id = ''m1'', created_at = 10, status = ''pending''\<rparr>,
                       \<lparr>msg_id = ''m2'', created_at = 20, status = ''pending''\<rparr>])] minit))"
  by (simp add: minit_def manager_defs selectPending_def failOn_def)

lemma deliverAll_prefix: "\<exists>p q. snd (deliverAll h ms log) = log @ p \<and> ms = p @ q"
proof (induction ms arbitrary: log)
  case Nil
  show ?case by simp
next
  case (Cons m ms)
  show ?case
  proof (cases "h m")
    case None
    obtain p q where "snd (deliverAll h ms (log @ [m])) = (log @ [m]) @ p" "ms = p @ q"
      using Cons.IH by blast
    then have "snd (deliverAll h (m # ms) log) = log @ (m # p) \<and> m # ms = (m # p) @ q"
      using None by simp
    then show ?thesis by blast
  next
    case (Some e)
    then have "snd (deliverAll h (m # ms) log) = log @ [m] \<and> m # ms = [m] @ ms"
      by simp
    then show ?thesis by blast
  qed
qed

lemma deliverAll_skip:
  "\<forall>x \<in> set xs. h x = None \<Longrightarrow> deliverAll h (xs @ ms) log = deliverAll h ms (log @ xs)"
  by (induction xs arbitrary: log) simp_all

lemma deliverAll_reaches:
  assumes "\<forall>x \<in> set xs. h x = None"
  shows "\<exists>p q. snd (deliverAll h (xs @ m # ys) log) = log @ xs @ m # p \<and> ys = p @ q"
proof -
  obtain p q where "snd (deliverAll h (m # ys) (log @ xs)) = (log @ xs) @ p" "m # ys = p @ q"
    using deliverAll_prefix by blast
  moreover have "\<exists>p'. snd (deliverAll h (m # ys) (log @ xs)) = (log @ xs) @ m # p'"
  proof (cases "h m")
    case None
    obtain p' q' where "snd (deliverAll h ys ((log @ xs) @ [m])) = ((log @ xs) @ [m]) @ p'"
      using deliverAll_prefix by blast
    with None show ?thesis by simp
  next
    case (Some e)
    then show ?thesis by simp
  qed
  ultimately obtain p' where p': "p = m # p'"
    by auto
  from \<open>m # ys = p @ q\<close> p' have "ys = p' @ q" by simp
  with \<open>snd (deliverAll h (m # ys) (log @ xs)) = (log @ xs) @ p\<close> p'
  show ?thesis
    using deliverAll_skip [OF assms, of "m # ys" log] by auto
qed

lemma poll_delivered:
  "messageHandler s = Some h \<Longrightarrow>
     delivered (pollPendingMessages t (Rows table) s) =
       snd (deliverAll h (selectPending table) (delivered s))"
  by (simp add: pollPendingMessages_def pollBegin_def pollResume_def split: prod.splits option.splits)

lemma poll_delivered_frame [simp]:
  "delivered (pollPendingMessages t (QueryError e) s) = delivered s"
  "nextChannel (pollPendingMessages t res s) = nextChannel s"
  by (simp_all add: pollPendingMessages_def pollBegin_def pollResume_def
        split: prod.splits option.splits query_result.splits)

lemma count_list_prefix: "count_list p m \<le> count_list (p @ q) m"
  by (simp add: count_list_append)

text \<open>
  Claim C9, as amended. When the set-up of the subscription succeeds, whatever the
  query answers and whatever the consumer does: \<open>initialize\<close> returns normally, the
  subscription is registered, one poll runs, no interval is created and the polling
  flag is unchanged; a \<open>SUBSCRIBED\<close> signal afterwards delivers nothing again and,
  when no interval existed, no tick polls. When the query answers with rows and
  the consumer fails on no item that comes before \<open>m\<close> in the batch, the pending
  row \<open>m\<close> is handed to the consumer by that pull, at least once and no more often
  than it is in the table (once); when the consumer accepts the whole batch, all the
  pending rows are delivered, oldest first.
\<close>

theorem initial_reconciliation_pull:
  "(\<exists>s'. initialize (Some h) SetupOk t res s = Inr s' \<and>
      s' = pollPendingMessages t res
             (s\<lparr>messageHandler := Some h, subscription := Some (nextChannel s),
                openChannels := openChannels s @ [nextChannel s],
                nextChannel := Suc (nextChannel s)\<rparr>) \<and>
      subscription s' = Some (nextChannel s) \<and> nextChannel s \<in> set (openChannels s') \<and>
      messageHandler s' = Some h \<and> lastPollTime s' = Some t \<and>
      timers s' = timers s \<and> isPolling s' = isPolling s \<and>
      pollingInterval s' = pollingInterval s \<and>
      delivered (onStatus ''SUBSCRIBED'' s') = delivered s' \<and>
      isRealtimeConnected (onStatus ''SUBSCRIBED'' s') \<and>
      \<not> isPolling (onStatus ''SUBSCRIBED'' s') \<and>
      (timers s = [] \<longrightarrow>
         (\<forall>t' res'. tick t' res' (onStatus ''SUBSCRIBED'' s') = onStatus ''SUBSCRIBED'' s')) \<and>
      (\<forall>table xs m ys.
         res = Rows table \<and> selectPending table = xs @ m # ys \<and> (\<forall>x \<in> set xs. h x = None) \<longrightarrow>
           m \<in> set table \<and> status m = ''pending'' \<and>
           (\<exists>p q. delivered s' = delivered s @ xs @ m # p \<and> ys = p @ q) \<and>
           m \<in> set (delivered s') \<and>
           count_list (delivered s) m < count_list (delivered s') m \<and>
           count_list (delivered s') m \<le> count_list (delivered s) m + count_list table m \<and>
           (h m = None \<and> (\<forall>x \<in> set ys. h x = None) \<longrightarrow>
              delivered s' = delivered s @ selectPending table \<and>
              count_list (delivered s') m = count_list (delivered s) m + count_list table m)))"
proof -
  define s2 where "s2 = s\<lparr>messageHandler := Some h, subscription := Some (nextChannel s),
      openChannels := openChannels s @ [nextChannel s], nextChannel := Suc (nextChannel s)\<rparr>"
  define s' where "s' = pollPendingMessages t res s2"
  have mh: "messageHandler s2 = Some h"
    by (simp add: s2_def)
  have ini: "initialize (Some h) SetupOk t res s = Inr s'"
    by (simp add: initialize_def setupRealtimeSubscription_def Let_def s2_def [symmetric] s'_def)
  have f: "subscription s' = Some (nextChannel s)" "nextChannel s \<in> set (openChannels s')"
    "messageHandler s' = Some h" "lastPollTime s' = Some t" "timers s' = timers s"
    "isPolling s' = isPolling s" "pollingInterval s' = pollingInterval s"
    by (simp_all add: s'_def s2_def)
  have sub: "delivered (onStatus ''SUBSCRIBED'' s') = delivered s'"
    "isRealtimeConnected (onStatus ''SUBSCRIBED'' s')" "\<not> isPolling (onStatus ''SUBSCRIBED'' s')"
    by (simp_all add: onStatus_def Let_def)
  have tk: "tick t' res' (onStatus ''SUBSCRIBED'' s') = onStatus ''SUBSCRIBED'' s'"
    if "timers s = []" for t' res'
    using that f(5)
    by (simp add: tick_def onStatus_def stopPolling_def clearIntervalFunc_def Let_def
          split: option.splits)
  have item: "m \<in> set table \<and> status m = ''pending'' \<and>
           (\<exists>p q. delivered s' = delivered s @ xs @ m # p \<and> ys = p @ q) \<and>
           m \<in> set (delivered s') \<and>
           count_list (delivered s) m < count_list (delivered s') m \<and>
           count_list (delivered s') m \<le> count_list (delivered s) m + count_list table m \<and>
           (h m = None \<and> (\<forall>x \<in> set ys. h x = None) \<longrightarrow>
              delivered s' = delivered s @ selectPending table \<and>
              count_list (delivered s') m = count_list (delivered s) m + count_list table m)"
    if hyp: "res = Rows table \<and> selectPending table = xs @ m # ys \<and> (\<forall>x \<in> set xs. h x = None)"
    for table xs m ys
  proof -
    from hyp have res: "res = Rows table" and sp: "selectPending table = xs @ m # ys"
      and acc: "\<forall>x \<in> set xs. h x = None"
      by simp_all
    have "m \<in> set (selectPending table)"
      by (simp add: sp)
    then have mp: "m \<in> set table" "status m = ''pending''"
      by (simp_all add: set_selectPending)
    have ct: "count_list (xs @ m # ys) m = count_list table m"
      using count_selectPending [of table m] mp(2) by (simp add: sp)
    have d: "delivered s' = snd (deliverAll h (xs @ m # ys) (delivered s))"
      using poll_delivered [OF mh, of t table] by (simp add: s'_def res sp s2_def)
    obtain p q where pq: "delivered s' = delivered s @ xs @ m # p" "ys = p @ q"
      using deliverAll_reaches [OF acc, of m ys "delivered s"] d by auto
    have c1: "count_list (delivered s) m < count_list (delivered s') m"
      by (simp add: pq(1) count_list_append)
    have "count_list (xs @ m # p) m \<le> count_list (xs @ m # ys) m"
      by (simp add: pq(2) count_list_append)
    then have c2: "count_list (delivered s') m \<le> count_list (delivered s) m + count_list table m"
      unfolding ct [symmetric] by (simp add: pq(1) count_list_append)
    have all: "delivered s' = delivered s @ selectPending table \<and>
        count_list (delivered s') m = count_list (delivered s) m + count_list table m"
      if "h m = None \<and> (\<forall>x \<in> set ys. h x = None)"
    proof -
      have "\<forall>x \<in> set (xs @ m # ys). h x = None"
        using acc that by auto
      then have "delivered s' = delivered s @ xs @ m # ys"
        unfolding d by (simp add: deliverAll_accepts)
      then show ?thesis
        using ct by (simp add: sp count_list_append)
    qed
    have ex: "\<exists>p q. delivered s' = delivered s @ xs @ m # p \<and> ys = p @ q"
      using pq by blast
    have mem: "m \<in> set (delivered s')"
      by (simp add: pq(1))
    show ?thesis
      using mp ex mem c1 c2 all by (intro conjI impI) blast+
  qed
  have eqs: "s' = pollPendingMessages t res
             (s\<lparr>messageHandler := Some h, subscription := Some (nextChannel s),
                openChannels := openChannels s @ [nextChannel s],
                nextChannel := Suc (nextChannel s)\<rparr>)"
    by (simp add: s'_def s2_def)
  have tk': "timers s = [] \<longrightarrow>
         (\<forall>t' res'. tick t' res' (onStatus ''SUBSCRIBED'' s') = onStatus ''SUBSCRIBED'' s')"
    using tk by blast
  have items: "\<forall>table xs m ys.
         res = Rows table \<and> selectPending table = xs @ m # ys \<and> (\<forall>x \<in> set xs. h x = None) \<longrightarrow>
           m \<in> set table \<and> status m = ''pending'' \<and>
           (\<exists>p q. delivered s' = delivered s @ xs @ m # p \<and> ys = p @ q) \<and>
           m \<in> set (delivered s') \<and>
           count_list (delivered s) m < count_list (delivered s') m \<and>
           count_list (delivered s') m \<le> count_list (delivered s) m + count_list table m \<and>
           (h m = None \<and> (\<forall>x \<in> set ys. h x = None) \<longrightarrow>
              delivered s' = delivered s @ selectPending table \<and>
              count_list (delivered s') m = count_list (delivered s) m + count_list table m)"
    using item by blast
  show ?thesis
    using ini eqs f sub tk' items
    by (intro exI [of _ s'] conjI) assumption+
qed


theorem initial_reconciliation_pull_witness:
  "(let m0 = \<lparr>msg_id = ''m0'', created_at = 40, status = ''sent''\<rparr>;
        m1 = \<lparr>msg_id = ''m1'', created_at = 50, status = ''pending''\<rparr>;
        m2 = \<lparr>msg_id = ''m2'', created_at = 60, status = ''pending''\<rparr>;
        m3 = \<lparr>msg_id = ''m3'', created_at = 70, status = ''pending''\<rparr>;
        tbl = [m3, m0, m1, m2];
        a = mrun [Initialize (Some acceptAll) SetupOk 100 (Rows tbl)] minit;
        b = mrun [Initialize (Some (failOn ''m2'')) SetupOk 100 (Rows tbl)] minit in
      selectPending tbl = [m1] @ m2 # [m3] \<and>
      (\<forall>x \<in> set [m1]. acceptAll x = None) \<and> acceptAll m2 = None \<and>
      (\<forall>x \<in> set [m3]. acceptAll x = None) \<and>
      (\<forall>x \<in> set [m1]. failOn ''m2'' x = None) \<and> timers minit = [] \<and>
      subscription a = Some 1 \<and> timers a = [] \<and> \<not> isPolling a \<and> lastPollTime a = Some 100 \<and>
      delivered a = [m1, m2, m3] \<and> count_list (delivered a) m2 = 1 \<and>
      tick 5100 (Rows tbl) (onStatus ''SUBSCRIBED'' a) = onStatus ''SUBSCRIBED'' a \<and>
      delivered (onStatus ''SUBSCRIBED'' a) = [m1, m2, m3] \<and>
      m2 \<in> set (delivered b) \<and> count_list (delivered b) m2 = 1 \<and> timers b = [])"
proof -
  define m0 where "m0 = \<lparr>msg_id = ''m0'', created_at = 40, status = ''sent''\<rparr>"
  define m1 where "m1 = \<lparr>msg_id = ''m1'', created_at = 50, status = ''pending''\<rparr>"
  define m2 where "m2 = \<lparr>msg_id = ''m2'', created_at = 60, status = ''pending''\<rparr>"
  define m3 where "m3 = \<lparr>msg_id = ''m3'', created_at = 70, status = ''pending''\<rparr>"
  define tbl where "tbl = [m3, m0, m1, m2]"
  have sp: "selectPending tbl = [m1] @ m2 # [m3]"
    by (simp add: selectPending_def tbl_def m0_def m1_def m2_def m3_def)
  have ct: "count_list tbl m2 = 1" "count_list (delivered minit) m2 = 0" "timers minit = []"
    by (simp_all add: tbl_def m0_def m1_def m2_def m3_def minit_def)
  have acc: "\<forall>x \<in> set [m1]. acceptAll x = None" "acceptAll m2 = None"
    "\<forall>x \<in> set [m3]. acceptAll x = None" "\<forall>x \<in> set [m1]. failOn ''m2'' x = None"
    by (simp_all add: acceptAll_def failOn_def m1_def)
  obtain a where a: "initialize (Some acceptAll) SetupOk 100 (Rows tbl) minit = Inr a"
    "subscription a = Some (nextChannel minit)" "timers a = timers minit"
    "isPolling a = isPolling minit" "lastPollTime a = Some 100"
    "delivered (onStatus ''SUBSCRIBED'' a) = delivered a"
    "timers minit = [] \<longrightarrow>
       (\<forall>t' res'. tick t' res' (onStatus ''SUBSCRIBED'' a) = onStatus ''SUBSCRIBED'' a)"
    and ai: "\<forall>table xs m ys.
         Rows tbl = Rows table \<and> selectPending table = xs @ m # ys \<and> (\<forall>x \<in> set xs. acceptAll x = None) \<longrightarrow>
           m \<in> set table \<and> status m = ''pending'' \<and>
           (\<exists>p q. delivered a = delivered minit @ xs @ m # p \<and> ys = p @ q) \<and>
           m \<in> set (delivered a) \<and>
           count_list (delivered minit) m < count_list (delivered a) m \<and>
           count_list (delivered a) m \<le> count_list (delivered minit) m + count_list table m \<and>
           (acceptAll m = None \<and> (\<forall>x \<in> set ys. acceptAll x = None) \<longrightarrow>
              delivered a = delivered minit @ selectPending table \<and>
              count_list (delivered a) m = count_list (delivered minit) m + count_list table m)"
    using initial_reconciliation_pull [of acceptAll 100 "Rows tbl" minit] by blast
  note A = ai [rule_format, of tbl "[m1]" m2 "[m3]"]
  have A': "delivered a = delivered minit @ selectPending tbl \<and>
      count_list (delivered a) m2 = count_list (delivered minit) m2 + count_list tbl m2"
    using A sp acc by blast
  have da: "delivered a = [m1, m2, m3]"
    using A' [THEN conjunct1] by (simp add: sp minit_def)
  have ca: "count_list (delivered a) m2 = 1"
    using A' [THEN conjunct2] unfolding ct by simp
  obtain b where b: "initialize (Some (failOn ''m2'')) SetupOk 100 (Rows tbl) minit = Inr b"
    "timers b = timers minit"
    and bi: "\<forall>table xs m ys.
         Rows tbl = Rows table \<and> selectPending table = xs @ m # ys \<and> (\<forall>x \<in> set xs. failOn ''m2'' x = None) \<longrightarrow>
           m \<in> set table \<and> status m = ''pending'' \<and>
           (\<exists>p q. delivered b = delivered minit @ xs @ m # p \<and> ys = p @ q) \<and>
           m \<in> set (delivered b) \<and>
           count_list (delivered minit) m < count_list (delivered b) m \<and>
           count_list (delivered b) m \<le> count_list (delivered minit) m + count_list table m \<and>
           (failOn ''m2'' m = None \<and> (\<forall>x \<in> set ys. failOn ''m2'' x = None) \<longrightarrow>
              delivered b = delivered minit @ selectPending table \<and>
              count_list (delivered b) m = count_list (delivered minit) m + count_list table m)"
    using initial_reconciliation_pull [of "failOn ''m2''" 100 "Rows tbl" minit] by blast
  note B = bi [rule_format, of tbl "[m1]" m2 "[m3]"]
  have B': "m2 \<in> set (delivered b) \<and>
      count_list (delivered minit) m2 < count_list (delivered b) m2 \<and>
      count_list (delivered b) m2 \<le> count_list (delivered minit) m2 + count_list tbl m2"
    using B sp acc(4) by blast
  have db: "m2 \<in> set (delivered b)" "count_list (delivered b) m2 = 1"
    using B' unfolding ct by simp_all
  have ra: "mrun [Initialize (Some acceptAll) SetupOk 100 (Rows tbl)] minit = a"
    and rb: "mrun [Initialize (Some (failOn ''m2'')) SetupOk 100 (Rows tbl)] minit = b"
    by (simp_all add: a(1) b(1))
  have "selectPending tbl = [m1] @ m2 # [m3] \<and>
      (\<forall>x \<in> set [m1]. acceptAll x = None) \<and> acceptAll m2 = None \<and>
      (\<forall>x \<in> set [m3]. acceptAll x = None) \<and>
      (\<forall>x \<in> set [m1]. failOn ''m2'' x = None) \<and> timers minit = [] \<and>
      subscription a = Some 1 \<and> timers a = [] \<and> \<not> isPolling a \<and> lastPollTime a = Some 100 \<and>
      delivered a = [m1, m2, m3] \<and> count_list (delivered a) m2 = 1 \<and>
      tick 5100 (Rows tbl) (onStatus ''SUBSCRIBED'' a) = onStatus ''SUBSCRIBED'' a \<and>
      delivered (onStatus ''SUBSCRIBED'' a) = [m1, m2, m3] \<and>
      m2 \<in> set (delivered b) \<and> count_list (delivered b) m2 = 1 \<and> timers b = []"
    using sp acc ct(3) a(2-7) da ca db b(2) by (simp add: minit_def)
  then show ?thesis
    unfolding Let_def ra [symmetric] rb [symmetric] tbl_def m0_def m1_def m2_def m3_def .
qed

text \<open>
  Claim C9 as stated fails: with a consumer that throws on \<open>m1\<close>, the row \<open>m2\<close>,
  pending before \<open>initialize\<close>, is not delivered by the initial pull, and once the
  subscription is confirmed no timer runs and a tick delivers nothing; when the
  query of the initial pull fails, nothing is delivered at all.
\<close>

theorem reconciliation_loss_counterexample:
  "delivered (mrun [Initialize (Some (failOn ''m1'')) SetupOk 100
        (Rows [\<lparr>msg_id = ''m1'', created_at = 10, status = ''pending''\<rparr>,
               \<lparr>msg_id = ''m2'', created_at = 20, status = ''pending''\<rparr>]),
      Status ''SUBSCRIBED'',
      Tick 5100 (Rows [\<lparr>msg_id = ''m1'', created_at = 10, status = ''pending''\<rparr>,
                       \<lparr>msg_id = ''m2'', created_at = 20, status = ''pending''\<rparr>])] minit) =
     [\<lparr>msg_id = ''m1'', created_at = 10, status = ''pending''\<rparr>] \<and>
   isRealtimeConnected (mrun [Initialize (Some (failOn ''m1'')) SetupOk 100
        (Rows [\<lparr>msg_id = ''m1'', created_at = 10, status = ''pending''\<rparr>,
               \<lparr>msg_id = ''m2'', created_at = 20, status = ''pending''\<rparr>]),
      Status ''SUBSCRIBED''] minit) \<and>
   timers (mrun [Initialize (Some (failOn ''m1'')) SetupOk 100
        (Rows [\<lparr>msg_id = ''m1'', created_at = 10, status = ''pending''\<rparr>,
               \<lparr>msg_id = ''m2'', created_at = 20, status = ''pending''\<rparr>]),
      Status ''SUBSCRIBED''] minit) = [] \<and>
   delivered (mrun [Initialize (Some acceptAll) SetupOk 100 (QueryError ''timeout''),
      Status ''SUBSCRIBED'',
      Tick 5100 (Rows [\<lparr>msg_id = ''m1'', created_at = 10, status = ''pending''\<rparr>])] minit) = []"
  by (simp add: minit_def manager_defs selectPending_def failOn_def acceptAll_def)

end
